theory Spec2Isabelle
  imports Main "HOL-Library.Word"
begin

unbundle bit_operations_syntax

section \<open>Runtime type representation: data model\<close>

text \<open>
  The model follows \<^verbatim>\<open>runtime/type.go\<close> on a 64-bit target: \<^verbatim>\<open>uintptr\<close> and
  \<^verbatim>\<open>unsafe.Pointer\<close> are 64-bit words (the nil pointer is 0), the three offset types
  are 32-bit words read as signed when widened, and Go strings are byte lists.
\<close>

type_synonym addr = "64 word"
type_synonym nameOff = "32 word"
type_synonym typeOff = "32 word"
type_synonym textOff = "32 word"
type_synonym gostring = "8 word list"

text \<open>
  Every way the source stops without a value: \<^verbatim>\<open>throw\<close> with its message, a read of
  unmapped memory (nil dereference included), a slice expression or an index out of
  bounds, an assignment to an entry of a nil map, and a
  cast of \<^verbatim>\<open>unsafe.Pointer(t)\<close> to a kind-specific layout that the memory at \<^verbatim>\<open>t\<close> does not
  have (the typed heap below cannot say what the reinterpreted bytes would be).
\<close>

datatype error = Throw string | Fault | SliceBounds | IndexRange | NilMap | BadOverlay

definition ebind :: "error + 'a \<Rightarrow> ('a \<Rightarrow> error + 'b) \<Rightarrow> error + 'b" where
  "ebind m k = (case m of Inl e \<Rightarrow> Inl e | Inr x \<Rightarrow> k x)"

definition tflagUncommon :: "8 word" where "tflagUncommon = push_bit 0 1"
definition tflagExtraStar :: "8 word" where "tflagExtraStar = push_bit 1 1"
definition tflagNamed :: "8 word" where "tflagNamed = push_bit 2 1"

text \<open>
  Modelled from the spec: the kind constants are declared in \<^verbatim>\<open>typekind.go\<close>, which is
  not part of the file; the closed enumeration boolean..complex128, array, channel,
  function, interface, map, pointer, slice, string, struct, unsafe-pointer is numbered
  in that order from 1, and \<^verbatim>\<open>kindMask\<close> keeps the low five bits.
\<close>

definition kindBool :: "8 word" where "kindBool = 1"
definition kindComplex128 :: "8 word" where "kindComplex128 = 16"
definition kindArray :: "8 word" where "kindArray = 17"
definition kindChan :: "8 word" where "kindChan = 18"
definition kindFunc :: "8 word" where "kindFunc = 19"
definition kindInterface :: "8 word" where "kindInterface = 20"
definition kindMap :: "8 word" where "kindMap = 21"
definition kindPtr :: "8 word" where "kindPtr = 22"
definition kindSlice :: "8 word" where "kindSlice = 23"
definition kindString :: "8 word" where "kindString = 24"
definition kindStruct :: "8 word" where "kindStruct = 25"
definition kindUnsafePointer :: "8 word" where "kindUnsafePointer = 26"
definition kindMask :: "8 word" where "kindMask = push_bit 5 1 - 1"

lemmas kind_defs = kindBool_def kindComplex128_def kindArray_def kindChan_def kindFunc_def
  kindInterface_def kindMap_def kindPtr_def kindSlice_def kindString_def kindStruct_def
  kindUnsafePointer_def kindMask_def

lemmas tflag_defs = tflagUncommon_def tflagExtraStar_def tflagNamed_def

record rtype =
  size' :: addr
  ptrdata :: addr
  hash :: "32 word"
  tflag :: "8 word"
  align :: "8 word"
  fieldalign :: "8 word"
  kind :: "8 word"
  alg :: addr
  gcdata :: addr
  str :: nameOff
  ptrToThis :: typeOff

record uncommontype =
  pkgpath :: nameOff
  mcount :: "16 word"
  xcount :: "16 word"
  moff :: "32 word"

text \<open>\<^verbatim>\<open>imethod\<close>: the source's field \<^verbatim>\<open>name\<close> is \<open>iname\<close> here.\<close>

record imethod =
  iname :: nameOff
  ityp :: typeOff

text \<open>
  \<^verbatim>\<open>structfield\<close>: a \<^verbatim>\<open>name\<close> is a pointer to its bytes, so the field \<^verbatim>\<open>name\<close> is the
  address \<open>fname\<close>; \<^verbatim>\<open>typ\<close> is \<open>ftyp\<close>.
\<close>

record structfield =
  fname :: addr
  ftyp :: addr
  offsetAnon :: addr

text \<open>
  \<^verbatim>\<open>functype\<close> without its header: the two counts, and \<open>inline\<close>, the array of type
  pointers that follows the record in memory (after the uncommon data when present), as
  far as it is mapped.
\<close>

record functype =
  inCount :: "16 word"
  outCount :: "16 word"
  inline :: "addr list"

text \<open>
  The kind-specific layouts that extend the header. \<open>ArrayT elem slice len\<close>,
  \<open>ChanT elem dir\<close>, \<open>InterfaceT pkgpath mhdr_base mhdr\<close> (the method headers and the
  address of the first one; a header is 8 bytes), \<open>MapT key elem bucket flags\<close>,
  \<open>PtrT elem\<close>, \<open>SliceT elem\<close>, \<open>StructT pkgPath fields\<close>.
\<close>

datatype trailer =
    NoTrailer
  | ArrayT addr addr addr
  | ChanT addr addr
  | FuncT functype
  | InterfaceT addr addr "imethod list"
  | MapT addr addr addr "32 word"
  | PtrT addr
  | SliceT addr
  | StructT addr "structfield list"

text \<open>
  What lies at the address of a descriptor: the header \<^verbatim>\<open>_type\<close>, the layout that
  follows it, and the bytes where \<^verbatim>\<open>uncommon()\<close> looks for the uncommon data.
\<close>

record descriptor =
  typ' :: rtype
  overlay :: trailer
  unc :: uncommontype

text \<open>
  Modelled from the spec: \<^verbatim>\<open>moduledata\<close> and its code-segment entries are declared in
  \<^verbatim>\<open>symtab.go\<close>, which is not part of the file. A module is an address range
  \<open>[types, etypes)\<close>, a code range, an ordered list of code segments (virtual address,
  length, relocated base), its table of typelink offsets and an optional override map.
  The registry \<^verbatim>\<open>firstmoduledata\<close>, \<^verbatim>\<open>.next\<close>, ... is the list \<open>modules\<close>.
\<close>

record textsect =
  vaddr :: addr
  length' :: addr
  baseaddr :: addr

record moduledata =
  text' :: addr
  etext :: addr
  types :: addr
  etypes :: addr
  textsectmap :: "textsect list"
  typelinks :: "32 word list"
  typemap :: "(typeOff \<rightharpoonup> addr) option"

text \<open>
  The globals and the memory the file reads: the module registry, the forward map of
  \<^verbatim>\<open>reflectOffs\<close>, the bytes of the name records, the descriptors by address, and the
  target (\<^verbatim>\<open>GOARCH == "wasm"\<close>, byte order). The lock of \<^verbatim>\<open>reflectOffs\<close> and the
  diagnostic \<^verbatim>\<open>println\<close>s have no effect on results and are left out.
\<close>

record state =
  modules :: "moduledata list"
  reflectOffs_m :: "32 word \<rightharpoonup> addr"
  mem :: "addr \<rightharpoonup> 8 word"
  descs :: "addr \<rightharpoonup> descriptor"
  goarch_wasm :: bool
  big_endian :: bool

definition load8 :: "state \<Rightarrow> addr \<Rightarrow> error + 8 word" where
  "load8 s a = (case mem s a of None \<Rightarrow> Inl Fault | Some b \<Rightarrow> Inr b)"

definition load_type :: "state \<Rightarrow> addr \<Rightarrow> error + descriptor" where
  "load_type s t = (case descs s t of None \<Rightarrow> Inl Fault | Some d \<Rightarrow> Inr d)"

text \<open>A Go map whose values are pointers: a missing key reads as nil.\<close>

definition map_ptr :: "('k \<rightharpoonup> addr) \<Rightarrow> 'k \<Rightarrow> addr" where
  "map_ptr m k = (case m k of None \<Rightarrow> 0 | Some p \<Rightarrow> p)"

section \<open>Offset resolver\<close>

text \<open>
  The loop \<^verbatim>\<open>for md := &firstmoduledata; md != nil; md = md.next\<close> with its range
  test: the first module whose \<open>[types, etypes)\<close> holds the base address.
\<close>

fun find_module :: "moduledata list \<Rightarrow> addr \<Rightarrow> moduledata option" where
  "find_module [] base = None"
| "find_module (md # mds) base =
     (if types md \<le> base \<and> base < etypes md then Some md else find_module mds base)"

definition resolveNameOff :: "state \<Rightarrow> addr \<Rightarrow> nameOff \<Rightarrow> error + addr" where
  "resolveNameOff s ptrInModule off =
     (if off = 0 then Inr 0
      else case find_module (modules s) ptrInModule of
        Some md \<Rightarrow>
          (let res = types md + scast off in
           if res > etypes md then Inl (Throw ''runtime: name offset out of range'')
           else Inr res)
      | None \<Rightarrow>
          (case reflectOffs_m s off of
             None \<Rightarrow> Inl (Throw ''runtime: name offset base pointer out of range'')
           | Some res \<Rightarrow> Inr res))"

definition resolveTypeOff :: "state \<Rightarrow> addr \<Rightarrow> typeOff \<Rightarrow> error + addr" where
  "resolveTypeOff s ptrInModule off =
     (if off = 0 then Inr 0
      else case find_module (modules s) ptrInModule of
        None \<Rightarrow>
          (let res = map_ptr (reflectOffs_m s) off in
           if res = 0 then Inl (Throw ''runtime: type offset base pointer out of range'')
           else Inr res)
      | Some md \<Rightarrow>
          (let t = (case typemap md of None \<Rightarrow> 0 | Some tm \<Rightarrow> map_ptr tm off) in
           if t \<noteq> 0 then Inr t
           else let res = types md + scast off in
             if res > etypes md then Inl (Throw ''runtime: type offset out of range'')
             else Inr res))"

text \<open>The scan of \<^verbatim>\<open>md.textsectmap\<close>; \<open>res\<close> stays 0 when no section is chosen.\<close>

fun textsect_scan :: "textsect list \<Rightarrow> addr \<Rightarrow> addr" where
  "textsect_scan [] off = 0"
| "textsect_scan (sect # sects) off =
     (let sectaddr = vaddr sect; sectlen = length' sect in
      if off \<ge> sectaddr \<and> off \<le> sectaddr + sectlen
      then baseaddr sect + off - vaddr sect
      else textsect_scan sects off)"

definition type_textOff :: "state \<Rightarrow> addr \<Rightarrow> textOff \<Rightarrow> error + addr" where
  "type_textOff s t off =
     (case find_module (modules s) t of
        None \<Rightarrow>
          (let res = map_ptr (reflectOffs_m s) off in
           if res = 0 then Inl (Throw ''runtime: text offset base pointer out of range'')
           else Inr res)
      | Some md \<Rightarrow>
          (let res = (if length (textsectmap md) > 1
                      then textsect_scan (textsectmap md) (scast off)
                      else text' md + scast off) in
           if res > etext md \<and> \<not> goarch_wasm s
           then Inl (Throw ''runtime: text offset out of range'')
           else Inr res))"

section \<open>Name codec\<close>

definition name_data :: "addr \<Rightarrow> nat \<Rightarrow> addr" where
  "name_data n off = n + of_nat off"

definition name_isExported :: "state \<Rightarrow> addr \<Rightarrow> error + bool" where
  "name_isExported s n = ebind (load8 s n) (\<lambda>b. Inr (b AND push_bit 0 1 \<noteq> 0))"

definition name_nameLen :: "state \<Rightarrow> addr \<Rightarrow> error + nat" where
  "name_nameLen s n =
     ebind (load8 s (name_data n 1)) (\<lambda>b1.
     ebind (load8 s (name_data n 2)) (\<lambda>b2.
       Inr (unat (push_bit 8 (ucast b1 :: 16 word) OR ucast b2))))"

definition name_tagLen :: "state \<Rightarrow> addr \<Rightarrow> error + nat" where
  "name_tagLen s n =
     ebind (load8 s (name_data n 0)) (\<lambda>flags.
       if flags AND push_bit 1 1 = 0 then Inr 0
       else ebind (name_nameLen s n) (\<lambda>nl.
         let off = 3 + nl in
         ebind (load8 s (name_data n off)) (\<lambda>b1.
         ebind (load8 s (name_data n (off + 1))) (\<lambda>b2.
           Inr (unat (push_bit 8 (ucast b1 :: 16 word) OR ucast b2))))))"

text \<open>
  A string header \<open>(str, len)\<close> over memory, by its contents: the \<open>len\<close> bytes from
  \<open>p\<close> on.
\<close>

fun load_string :: "state \<Rightarrow> addr \<Rightarrow> nat \<Rightarrow> error + gostring" where
  "load_string s p 0 = Inr []"
| "load_string s p (Suc k) =
     ebind (load8 s p) (\<lambda>b. ebind (load_string s (p + 1) k) (\<lambda>bs. Inr (b # bs)))"

text \<open>
  \<^verbatim>\<open>name()\<close> and \<^verbatim>\<open>tag()\<close> only build a string header over the bytes of the record.
  The model reads the bytes where the header is built, so on a record whose bytes are
  unmapped it faults here, where the source faults at the first use of the string.
\<close>

definition name_name :: "state \<Rightarrow> addr \<Rightarrow> error + gostring" where
  "name_name s n =
     (if n = 0 then Inr []
      else ebind (name_nameLen s n) (\<lambda>nl.
        if nl = 0 then Inr [] else load_string s (name_data n 3) nl))"

definition name_tag :: "state \<Rightarrow> addr \<Rightarrow> error + gostring" where
  "name_tag s n =
     ebind (name_tagLen s n) (\<lambda>tlen.
       if tlen = 0 then Inr []
       else ebind (name_nameLen s n) (\<lambda>nl. load_string s (name_data n (3 + nl + 2)) tlen))"

text \<open>
  The \<^verbatim>\<open>copy\<close> of four bytes into a \<^verbatim>\<open>nameOff\<close> keeps the target's byte order.
\<close>

definition load_nameOff :: "state \<Rightarrow> addr \<Rightarrow> error + nameOff" where
  "load_nameOff s p =
     ebind (load8 s p) (\<lambda>b0.
     ebind (load8 s (p + 1)) (\<lambda>b1.
     ebind (load8 s (p + 2)) (\<lambda>b2.
     ebind (load8 s (p + 3)) (\<lambda>b3.
       Inr (if big_endian s
            then push_bit 24 (ucast b0) OR push_bit 16 (ucast b1) OR push_bit 8 (ucast b2) OR ucast b3
            else push_bit 24 (ucast b3) OR push_bit 16 (ucast b2) OR push_bit 8 (ucast b1) OR ucast b0)))))"

definition name_pkgPath :: "state \<Rightarrow> addr \<Rightarrow> error + gostring" where
  "name_pkgPath s n =
     (if n = 0 then Inr []
      else ebind (load8 s (name_data n 0)) (\<lambda>flags.
        if flags AND push_bit 2 1 = 0 then Inr []
        else ebind (name_nameLen s n) (\<lambda>nl.
          ebind (name_tagLen s n) (\<lambda>tlen.
            let off = (if tlen > 0 then (3 + nl) + (2 + tlen) else 3 + nl) in
            ebind (load_nameOff s (name_data n off)) (\<lambda>nameOff.
            ebind (resolveNameOff s n nameOff) (\<lambda>pkgPathName.
              name_name s pkgPathName))))))"

section \<open>Descriptor accessors\<close>

definition type_nameOff :: "state \<Rightarrow> addr \<Rightarrow> nameOff \<Rightarrow> error + addr" where
  "type_nameOff s t off = resolveNameOff s t off"

definition type_typeOff :: "state \<Rightarrow> addr \<Rightarrow> typeOff \<Rightarrow> error + addr" where
  "type_typeOff s t off = resolveTypeOff s t off"

definition type_string :: "state \<Rightarrow> addr \<Rightarrow> error + gostring" where
  "type_string s t =
     ebind (load_type s t) (\<lambda>d.
     ebind (type_nameOff s t (str (typ' d))) (\<lambda>n.
     ebind (name_name s n) (\<lambda>nm.
       if tflag (typ' d) AND tflagExtraStar \<noteq> 0
       then (if 1 \<le> length nm then Inr (drop 1 nm) else Inl SliceBounds)
       else Inr nm)))"

text \<open>
  \<^verbatim>\<open>uncommon()\<close> finds the uncommon data behind the layout its \<^verbatim>\<open>switch\<close> on the kind
  selects; \<open>overlay_of_kind\<close> says when that layout is the one in memory.
\<close>

definition overlay_of_kind :: "8 word \<Rightarrow> trailer \<Rightarrow> bool" where
  "overlay_of_kind k tr =
     (if k = kindStruct then (case tr of StructT _ _ \<Rightarrow> True | _ \<Rightarrow> False)
      else if k = kindPtr then (case tr of PtrT _ \<Rightarrow> True | _ \<Rightarrow> False)
      else if k = kindFunc then (case tr of FuncT _ \<Rightarrow> True | _ \<Rightarrow> False)
      else if k = kindSlice then (case tr of SliceT _ \<Rightarrow> True | _ \<Rightarrow> False)
      else if k = kindArray then (case tr of ArrayT _ _ _ \<Rightarrow> True | _ \<Rightarrow> False)
      else if k = kindChan then (case tr of ChanT _ _ \<Rightarrow> True | _ \<Rightarrow> False)
      else if k = kindMap then (case tr of MapT _ _ _ _ \<Rightarrow> True | _ \<Rightarrow> False)
      else if k = kindInterface then (case tr of InterfaceT _ _ _ \<Rightarrow> True | _ \<Rightarrow> False)
      else (case tr of NoTrailer \<Rightarrow> True | _ \<Rightarrow> False))"

definition type_uncommon :: "state \<Rightarrow> addr \<Rightarrow> error + uncommontype option" where
  "type_uncommon s t =
     ebind (load_type s t) (\<lambda>d.
       if tflag (typ' d) AND tflagUncommon = 0 then Inr None
       else if overlay_of_kind (kind (typ' d) AND kindMask) (overlay d) then Inr (Some (unc d))
       else Inl BadOverlay)"

text \<open>The backward scan of \<^verbatim>\<open>name()\<close> for a dot (byte 46), from index \<open>i\<close> down.\<close>

function name_scan :: "gostring \<Rightarrow> int \<Rightarrow> int" where
  "name_scan s i = (if i \<ge> 0 then (if s ! nat i = 46 then i else name_scan s (i - 1)) else i)"
  by pat_completeness auto
termination
  by (relation "measure (\<lambda>(s, i). nat (i + 1))") auto

declare name_scan.simps [simp del]

definition type_name :: "state \<Rightarrow> addr \<Rightarrow> error + gostring" where
  "type_name s t =
     ebind (load_type s t) (\<lambda>d.
       if tflag (typ' d) AND tflagNamed = 0 then Inr []
       else ebind (type_string s t) (\<lambda>s'.
         let i = name_scan s' (int (length s') - 1) in
         Inr (drop (nat (i + 1)) s')))"

definition type_pkgpath :: "state \<Rightarrow> addr \<Rightarrow> error + gostring" where
  "type_pkgpath s t =
     ebind (type_uncommon s t) (\<lambda>u.
       case u of
         Some u' \<Rightarrow> ebind (type_nameOff s t (pkgpath u')) (name_name s)
       | None \<Rightarrow>
           ebind (load_type s t) (\<lambda>d.
             let k = kind (typ' d) AND kindMask in
             if k = kindStruct
             then (case overlay d of StructT pkgPath fs \<Rightarrow> name_name s pkgPath
                   | _ \<Rightarrow> Inl BadOverlay)
             else if k = kindInterface
             then (case overlay d of InterfaceT pkgpath' mb mhdr \<Rightarrow> name_name s pkgpath'
                   | _ \<Rightarrow> Inl BadOverlay)
             else Inr []))"

text \<open>
  \<^verbatim>\<open>in()\<close> and \<^verbatim>\<open>out()\<close> slice the array \<^verbatim>\<open>[1 << 20]*_type\<close> behind the record. A slice
  is the index of its first element in that array and its length. The bounds of
  \<^verbatim>\<open>out()\<close> are computed in \<^verbatim>\<open>uint16\<close>, where the sum wraps; the slice expression
  needs \<open>low \<le> high \<le> 2^20\<close>.
\<close>

definition slice_array :: "nat \<Rightarrow> nat \<Rightarrow> error + nat \<times> nat" where
  "slice_array lo hi = (if lo \<le> hi \<and> hi \<le> 2 ^ 20 then Inr (lo, hi - lo) else Inl SliceBounds)"

definition functype_in :: "functype \<Rightarrow> error + nat \<times> nat" where
  "functype_in t = slice_array 0 (unat (inCount t))"

definition functype_out :: "functype \<Rightarrow> error + nat \<times> nat" where
  "functype_out t =
     (let outCount' = outCount t AND (push_bit 15 1 - 1) in
      slice_array (unat (inCount t)) (unat (inCount t + outCount')))"

definition functype_dotdotdot :: "functype \<Rightarrow> bool" where
  "functype_dotdotdot t = (outCount t AND push_bit 15 1 \<noteq> 0)"

section \<open>Structural equality\<close>

text \<open>
  \<^verbatim>\<open>typesEqual\<close> returns a boolean and updates the memo \<^verbatim>\<open>seen\<close> in place; it can also
  throw or fault. A result is \<open>Some (Inr (b, seen'))\<close>, \<open>Some (Inl e)\<close> for an abort, and
  \<open>None\<close> when the recursion is deeper than the fuel allows.
\<close>

type_synonym seen = "(addr \<times> addr) set"
type_synonym eqres = "(error + bool \<times> seen) option"

definition ret :: "bool \<Rightarrow> seen \<Rightarrow> eqres" where
  "ret b sn = Some (Inr (b, sn))"

definition lift :: "error + 'a \<Rightarrow> ('a \<Rightarrow> eqres) \<Rightarrow> eqres" where
  "lift m k = (case m of Inl e \<Rightarrow> Some (Inl e) | Inr x \<Rightarrow> k x)"

text \<open>\<^verbatim>\<open>if !typesEqual(...) { return false }\<close>, then the rest.\<close>

definition and_then :: "eqres \<Rightarrow> (seen \<Rightarrow> eqres) \<Rightarrow> eqres" where
  "and_then r k =
     (case r of
        None \<Rightarrow> None
      | Some (Inl e) \<Rightarrow> Some (Inl e)
      | Some (Inr (b, sn)) \<Rightarrow> if b then k sn else Some (Inr (False, sn)))"

text \<open>
  Element \<open>i\<close> of a slice \<open>(lo, len)\<close> of the inline array: the index check of the
  slice, then the read of the array.
\<close>

definition slice_index :: "addr list \<Rightarrow> nat \<times> nat \<Rightarrow> nat \<Rightarrow> error + addr" where
  "slice_index arr sl i =
     (if i < snd sl
      then (if fst sl + i < length arr then Inr (arr ! (fst sl + i)) else Inl Fault)
      else Inl IndexRange)"

text \<open>
  The two iterations \<^verbatim>\<open>for i := 0; i < len(tin); i++\<close> over the parameters and the results of a
  function type: \<open>i\<close> is the index and \<open>k\<close> the number of rounds left.
\<close>

fun func_loop ::
  "(addr \<Rightarrow> addr \<Rightarrow> seen \<Rightarrow> eqres) \<Rightarrow> functype \<Rightarrow> functype \<Rightarrow> nat \<times> nat \<Rightarrow> nat \<times> nat \<Rightarrow>
   nat \<Rightarrow> nat \<Rightarrow> seen \<Rightarrow> eqres" where
  "func_loop eq ft fv tin vin i 0 sn = ret True sn"
| "func_loop eq ft fv tin vin i (Suc k) sn =
     lift (slice_index (inline ft) tin i) (\<lambda>a.
     lift (slice_index (inline fv) vin i) (\<lambda>b.
       and_then (eq a b sn) (func_loop eq ft fv tin vin (Suc i) k)))"

text \<open>
  The loop over the method headers of two interfaces; \<open>tb\<close> and \<open>vb\<close> are the addresses
  of the current headers \<^verbatim>\<open>tm\<close> and \<^verbatim>\<open>vm\<close>, the context of their offsets.
\<close>

fun mhdr_loop ::
  "(addr \<Rightarrow> addr \<Rightarrow> seen \<Rightarrow> eqres) \<Rightarrow> state \<Rightarrow> addr \<Rightarrow> imethod list \<Rightarrow> addr \<Rightarrow> imethod list \<Rightarrow>
   seen \<Rightarrow> eqres" where
  "mhdr_loop eq s tb [] vb vms sn = ret True sn"
| "mhdr_loop eq s tb (tm # tms) vb [] sn = Some (Inl IndexRange)"
| "mhdr_loop eq s tb (tm # tms) vb (vm # vms) sn =
     lift (resolveNameOff s tb (iname tm)) (\<lambda>tname.
     lift (resolveNameOff s vb (iname vm)) (\<lambda>vname.
     lift (name_name s tname) (\<lambda>tn.
     lift (name_name s vname) (\<lambda>vn.
       if tn = vn then
         lift (name_pkgPath s tname) (\<lambda>tp.
         lift (name_pkgPath s vname) (\<lambda>vp.
           if tp = vp then
             lift (resolveTypeOff s tb (ityp tm)) (\<lambda>tityp.
             lift (resolveTypeOff s vb (ityp vm)) (\<lambda>vityp.
               and_then (eq tityp vityp sn) (mhdr_loop eq s (tb + 8) tms (vb + 8) vms)))
           else ret False sn))
       else ret False sn))))"

text \<open>The loop over the fields of two structs.\<close>

fun fields_loop ::
  "(addr \<Rightarrow> addr \<Rightarrow> seen \<Rightarrow> eqres) \<Rightarrow> state \<Rightarrow> structfield list \<Rightarrow> structfield list \<Rightarrow>
   seen \<Rightarrow> eqres" where
  "fields_loop eq s [] vfs sn = ret True sn"
| "fields_loop eq s (tf # tfs) [] sn = Some (Inl IndexRange)"
| "fields_loop eq s (tf # tfs) (vf # vfs) sn =
     lift (name_name s (fname tf)) (\<lambda>tn.
     lift (name_name s (fname vf)) (\<lambda>vn.
       if tn = vn then
         and_then (eq (ftyp tf) (ftyp vf) sn) (\<lambda>sn'.
           lift (name_tag s (fname tf)) (\<lambda>tt.
           lift (name_tag s (fname vf)) (\<lambda>vt.
             if tt = vt then
               (if offsetAnon tf = offsetAnon vf then fields_loop eq s tfs vfs sn'
                else ret False sn')
             else ret False sn')))
       else ret False sn))"

text \<open>The comparison of the uncommon data: both present with equal package paths, or none.\<close>

definition uncommon_equal ::
  "state \<Rightarrow> addr \<Rightarrow> addr \<Rightarrow> uncommontype option \<Rightarrow> uncommontype option \<Rightarrow> error + bool" where
  "uncommon_equal s t v ut uv =
     (case ut of
        None \<Rightarrow> (case uv of None \<Rightarrow> Inr True | Some b \<Rightarrow> Inr False)
      | Some a \<Rightarrow>
          (case uv of
             None \<Rightarrow> Inr False
           | Some b \<Rightarrow>
               ebind (ebind (type_nameOff s t (pkgpath a)) (name_name s)) (\<lambda>pkgpatht.
               ebind (ebind (type_nameOff s v (pkgpath b)) (name_name s)) (\<lambda>pkgpathv.
                 Inr (pkgpatht = pkgpathv)))))"

text \<open>The \<^verbatim>\<open>switch kind\<close>; \<open>eq\<close> stands for the recursive calls.\<close>

definition typesEqual_switch ::
  "(addr \<Rightarrow> addr \<Rightarrow> seen \<Rightarrow> eqres) \<Rightarrow> state \<Rightarrow> 8 word \<Rightarrow> descriptor \<Rightarrow> descriptor \<Rightarrow> seen \<Rightarrow> eqres"
  where
  "typesEqual_switch eq s k dt dv sn =
     (if k = kindString then ret True sn
      else if k = kindUnsafePointer then ret True sn
      else if k = kindArray then
        (case overlay dt of
           ArrayT te ts tlen \<Rightarrow>
             (case overlay dv of
                ArrayT ve vs vlen \<Rightarrow> and_then (eq te ve sn) (ret (tlen = vlen))
              | _ \<Rightarrow> Some (Inl BadOverlay))
         | _ \<Rightarrow> Some (Inl BadOverlay))
      else if k = kindChan then
        (case overlay dt of
           ChanT te tdir \<Rightarrow>
             (case overlay dv of
                ChanT ve vdir \<Rightarrow> if tdir = vdir then eq te ve sn else ret False sn
              | _ \<Rightarrow> Some (Inl BadOverlay))
         | _ \<Rightarrow> Some (Inl BadOverlay))
      else if k = kindFunc then
        (case overlay dt of
           FuncT ft \<Rightarrow>
             (case overlay dv of
                FuncT fv \<Rightarrow>
                  if outCount ft = outCount fv \<and> inCount ft = inCount fv then
                    lift (functype_in ft) (\<lambda>tin.
                    lift (functype_in fv) (\<lambda>vin.
                      and_then (func_loop eq ft fv tin vin 0 (snd tin) sn) (\<lambda>sn'.
                        lift (functype_out ft) (\<lambda>tout.
                        lift (functype_out fv) (\<lambda>vout.
                          func_loop eq ft fv tout vout 0 (snd tout) sn')))))
                  else ret False sn
              | _ \<Rightarrow> Some (Inl BadOverlay))
         | _ \<Rightarrow> Some (Inl BadOverlay))
      else if k = kindInterface then
        (case overlay dt of
           InterfaceT tp tb tms \<Rightarrow>
             (case overlay dv of
                InterfaceT vp vb vms \<Rightarrow>
                  lift (name_name s tp) (\<lambda>tpn.
                  lift (name_name s vp) (\<lambda>vpn.
                    if tpn = vpn then
                      (if length tms = length vms then mhdr_loop eq s tb tms vb vms sn
                       else ret False sn)
                    else ret False sn))
              | _ \<Rightarrow> Some (Inl BadOverlay))
         | _ \<Rightarrow> Some (Inl BadOverlay))
      else if k = kindMap then
        (case overlay dt of
           MapT tk te tbk tfl \<Rightarrow>
             (case overlay dv of
                MapT vk ve vbk vfl \<Rightarrow> and_then (eq tk vk sn) (eq te ve)
              | _ \<Rightarrow> Some (Inl BadOverlay))
         | _ \<Rightarrow> Some (Inl BadOverlay))
      else if k = kindPtr then
        (case overlay dt of
           PtrT te \<Rightarrow>
             (case overlay dv of
                PtrT ve \<Rightarrow> eq te ve sn
              | _ \<Rightarrow> Some (Inl BadOverlay))
         | _ \<Rightarrow> Some (Inl BadOverlay))
      else if k = kindSlice then
        (case overlay dt of
           SliceT te \<Rightarrow>
             (case overlay dv of
                SliceT ve \<Rightarrow> eq te ve sn
              | _ \<Rightarrow> Some (Inl BadOverlay))
         | _ \<Rightarrow> Some (Inl BadOverlay))
      else if k = kindStruct then
        (case overlay dt of
           StructT tp tfs \<Rightarrow>
             (case overlay dv of
                StructT vp vfs \<Rightarrow>
                  if length tfs = length vfs then
                    lift (name_name s tp) (\<lambda>tpn.
                    lift (name_name s vp) (\<lambda>vpn.
                      if tpn = vpn then fields_loop eq s tfs vfs sn else ret False sn))
                  else ret False sn
              | _ \<Rightarrow> Some (Inl BadOverlay))
         | _ \<Rightarrow> Some (Inl BadOverlay))
      else Some (Inl (Throw ''runtime: impossible type kind'')))"

text \<open>The body of \<^verbatim>\<open>typesEqual\<close>, from the memo test down to the \<^verbatim>\<open>switch\<close>.\<close>

definition typesEqual_body ::
  "(addr \<Rightarrow> addr \<Rightarrow> seen \<Rightarrow> eqres) \<Rightarrow> state \<Rightarrow> addr \<Rightarrow> addr \<Rightarrow> seen \<Rightarrow> eqres" where
  "typesEqual_body eq s t v seen0 =
     (if (t, v) \<in> seen0 then ret True seen0
      else
        let sn = insert (t, v) seen0 in
        if t = v then ret True sn
        else
          lift (load_type s t) (\<lambda>dt.
          lift (load_type s v) (\<lambda>dv.
            let k = kind (typ' dt) AND kindMask in
            if k = kind (typ' dv) AND kindMask then
              lift (type_string s t) (\<lambda>st.
              lift (type_string s v) (\<lambda>sv.
                if st = sv then
                  lift (type_uncommon s t) (\<lambda>ut.
                  lift (type_uncommon s v) (\<lambda>uv.
                  lift (uncommon_equal s t v ut uv) (\<lambda>same.
                    if same then
                      (if kindBool \<le> k \<and> k \<le> kindComplex128 then ret True sn
                       else typesEqual_switch eq s k dt dv sn)
                    else ret False sn)))
                else ret False sn))
            else ret False sn)))"

text \<open>
  \<^verbatim>\<open>typesEqual\<close> with a bound on the depth of its recursion: each level of calls uses
  one unit of fuel.
\<close>

primrec typesEqual :: "nat \<Rightarrow> state \<Rightarrow> addr \<Rightarrow> addr \<Rightarrow> seen \<Rightarrow> eqres" where
  "typesEqual 0 s t v sn = None"
| "typesEqual (Suc n) s t v sn = typesEqual_body (typesEqual n s) s t v sn"

section \<open>Module deduplication\<close>

text \<open>\<^verbatim>\<open>typehash\<close>: a missing key is the nil slice.\<close>

type_synonym typehash = "32 word \<Rightarrow> addr list"

text \<open>
  The loop \<^verbatim>\<open>collect\<close> over the typelinks of the previous module.
\<close>

fun collect :: "state \<Rightarrow> moduledata \<Rightarrow> 32 word list \<Rightarrow> typehash \<Rightarrow> error + typehash" where
  "collect s prev [] th = Inr th"
| "collect s prev (lnk # lnks) th =
     (let t = (case typemap prev of
                 None \<Rightarrow> types prev + scast lnk
               | Some tm \<Rightarrow> map_ptr tm lnk) in
      ebind (load_type s t) (\<lambda>d.
        let tlist = th (hash (typ' d)) in
        if t \<in> set tlist then collect s prev lnks th
        else collect s prev lnks (th (hash (typ' d) := tlist @ [t]))))"

text \<open>
  The search among the candidates of one hash, each compared with a fresh memo; the
  type itself when none is equal.
\<close>

fun find_candidate :: "nat \<Rightarrow> state \<Rightarrow> addr \<Rightarrow> addr list \<Rightarrow> (error + addr) option" where
  "find_candidate n s t [] = Some (Inr t)"
| "find_candidate n s t (candidate # cs) =
     (case typesEqual n s t candidate {} of
        None \<Rightarrow> None
      | Some (Inl e) \<Rightarrow> Some (Inl e)
      | Some (Inr (b, sn)) \<Rightarrow> if b then Some (Inr candidate) else find_candidate n s t cs)"

definition set_typemap :: "state \<Rightarrow> nat \<Rightarrow> (typeOff \<rightharpoonup> addr) \<Rightarrow> state" where
  "set_typemap s j tm = s\<lparr>modules := (modules s)[j := (modules s ! j)\<lparr>typemap := Some tm\<rparr>]\<rparr>"

text \<open>
  The loop that fills the override map of module \<open>j\<close>. The map is already installed in
  the module while it is filled, so the comparisons resolve offsets against it.
\<close>

fun build_typemap ::
  "nat \<Rightarrow> state \<Rightarrow> typehash \<Rightarrow> nat \<Rightarrow> 32 word list \<Rightarrow> (error + state) option" where
  "build_typemap n s th j [] = Some (Inr s)"
| "build_typemap n s th j (lnk # lnks) =
     (let md = modules s ! j; t = types md + scast lnk in
      case load_type s t of
        Inl e \<Rightarrow> Some (Inl e)
      | Inr d \<Rightarrow>
          (case find_candidate n s t (th (hash (typ' d))) of
             None \<Rightarrow> None
           | Some (Inl e) \<Rightarrow> Some (Inl e)
           | Some (Inr c) \<Rightarrow>
               (case typemap md of
                  None \<Rightarrow> Some (Inl NilMap)
                | Some tm \<Rightarrow> build_typemap n (set_typemap s j (tm(lnk \<mapsto> c))) th j lnks)))"

text \<open>
  Modelled from the spec: \<^verbatim>\<open>activeModules()\<close> is defined outside the file; the modules
  are processed in registration order, so it is the registry \<open>modules\<close>.

  The loop over \<^verbatim>\<open>modules[1:]\<close>, by index: \<^verbatim>\<open>md\<close> is module \<open>j\<close> and \<^verbatim>\<open>prev\<close> the
  module before it. (\<^verbatim>\<open>pinnedTypemaps\<close> only keeps the maps alive and is left out.)
\<close>

fun modloop :: "nat \<Rightarrow> state \<Rightarrow> typehash \<Rightarrow> nat list \<Rightarrow> (error + state \<times> typehash) option" where
  "modloop n s th [] = Some (Inr (s, th))"
| "modloop n s th (j # js) =
     (let prev = modules s ! (j - 1) in
      case collect s prev (typelinks prev) th of
        Inl e \<Rightarrow> Some (Inl e)
      | Inr th' \<Rightarrow>
          (case typemap (modules s ! j) of
             Some tm \<Rightarrow> modloop n s th' js
           | None \<Rightarrow>
               (case build_typemap n (set_typemap s j Map.empty) th' j (typelinks (modules s ! j)) of
                  None \<Rightarrow> None
                | Some (Inl e) \<Rightarrow> Some (Inl e)
                | Some (Inr s') \<Rightarrow> modloop n s' th' js)))"

definition typelinksinit :: "nat \<Rightarrow> state \<Rightarrow> (error + state) option" where
  "typelinksinit n s =
     (if length (modules s) \<le> 1 then Some (Inr s)
      else case modloop n s (\<lambda>h. []) [1..<length (modules s)] of
        None \<Rightarrow> None
      | Some (Inl e) \<Rightarrow> Some (Inl e)
      | Some (Inr (s', th)) \<Rightarrow> Some (Inr s'))"

section \<open>Example states\<close>

text \<open>
  One module over \<open>[0x1000, 0x2000)\<close>. Its name records: \<open>pkg.Foo\<close> at \<open>0x1800\<close>,
  \<open>*T\<close> at \<open>0x1810\<close>, the empty name at \<open>0x1820\<close>, \<open>b\<close> at \<open>0x1830\<close>, \<open>a\<close> at
  \<open>0x1840\<close>, at \<open>0x1900\<close> the exported name \<open>Count\<close> with the tag \<open>js\<close> and a
  package path that refers to the record at offset \<open>0x840\<close>, and at \<open>0x1920\<close> the
  name \<open>x\<close> with the same package path and no tag.
\<close>

definition ex_mem :: "addr \<rightharpoonup> 8 word" where
  "ex_mem = map_of
     [(0x1800, 1), (0x1801, 0), (0x1802, 7), (0x1803, 112), (0x1804, 107), (0x1805, 103),
      (0x1806, 46), (0x1807, 70), (0x1808, 111), (0x1809, 111),
      (0x1810, 0), (0x1811, 0), (0x1812, 2), (0x1813, 42), (0x1814, 84),
      (0x1820, 0), (0x1821, 0), (0x1822, 0),
      (0x1830, 0), (0x1831, 0), (0x1832, 1), (0x1833, 98),
      (0x1840, 0), (0x1841, 0), (0x1842, 1), (0x1843, 97),
      (0x1900, 7), (0x1901, 0), (0x1902, 5), (0x1903, 67), (0x1904, 111), (0x1905, 117),
      (0x1906, 110), (0x1907, 116), (0x1908, 0), (0x1909, 2), (0x190A, 106), (0x190B, 115),
      (0x190C, 0x40), (0x190D, 0x08), (0x190E, 0), (0x190F, 0),
      (0x1920, 4), (0x1921, 0), (0x1922, 1), (0x1923, 120),
      (0x1924, 0x40), (0x1925, 0x08), (0x1926, 0), (0x1927, 0)]"

definition ex_hdr :: rtype where
  "ex_hdr = \<lparr>size' = 8, ptrdata = 8, hash = 7, tflag = 0, align = 8, fieldalign = 8, kind = 0,
     alg = 0, gcdata = 0, str = 0, ptrToThis = 0\<rparr>"

definition ex_unc :: uncommontype where
  "ex_unc = \<lparr>pkgpath = 0x840, mcount = 0, xcount = 0, moff = 0\<rparr>"

definition ex_descs :: "addr \<rightharpoonup> descriptor" where
  "ex_descs = map_of
     [(0x1000, \<lparr>typ' = ex_hdr\<lparr>tflag := 5, kind := 25, str := 0x800\<rparr>,
                overlay = StructT 0x1830 [], unc = ex_unc\<rparr>),
      (0x1040, \<lparr>typ' = ex_hdr\<lparr>tflag := 2, kind := 22, str := 0x810\<rparr>,
                overlay = PtrT 0x1000, unc = ex_unc\<rparr>),
      (0x1080, \<lparr>typ' = ex_hdr\<lparr>tflag := 2, kind := 22, str := 0x820\<rparr>,
                overlay = PtrT 0x1000, unc = ex_unc\<rparr>),
      (0x10C0, \<lparr>typ' = ex_hdr\<lparr>tflag := 4, kind := 2, str := 0x830\<rparr>,
                overlay = NoTrailer, unc = ex_unc\<rparr>),
      (0x1100, \<lparr>typ' = ex_hdr\<lparr>tflag := 0, kind := 25, str := 0x800\<rparr>,
                overlay = StructT 0x1830 [], unc = ex_unc\<rparr>),
      (0x1140, \<lparr>typ' = ex_hdr\<lparr>tflag := 0, kind := 20, str := 0x800\<rparr>,
                overlay = InterfaceT 0x1840 0 [], unc = ex_unc\<rparr>)]"

definition ex_func :: functype where
  "ex_func = \<lparr>inCount = 2, outCount = 1 OR push_bit 15 1, inline = []\<rparr>"

definition ex_func_wide :: functype where
  "ex_func_wide = \<lparr>inCount = 0xFFFF, outCount = 1, inline = []\<rparr>"

definition ex_sects :: "textsect list" where
  "ex_sects = [\<lparr>vaddr = 0, length' = 16, baseaddr = 0x5000\<rparr>,
               \<lparr>vaddr = 16, length' = 16, baseaddr = 0x9000\<rparr>]"

text \<open>
  The selection of a code segment in the words of the specification: the first segment
  whose half-open range \<open>[vaddr, vaddr + length)\<close> holds the offset, translated by its
  relocated base.
\<close>

fun spec_textsect_select :: "textsect list \<Rightarrow> addr \<Rightarrow> addr option" where
  "spec_textsect_select [] off = None"
| "spec_textsect_select (sect # sects) off =
     (if vaddr sect \<le> off \<and> off < vaddr sect + length' sect
      then Some (baseaddr sect + (off - vaddr sect))
      else spec_textsect_select sects off)"

definition ex_module :: moduledata where
  "ex_module = \<lparr>text' = 0x10000, etext = 0x20000, types = 0x1000, etypes = 0x2000,
     textsectmap = [], typelinks = [0x40], typemap = None\<rparr>"

definition ex_state :: state where
  "ex_state = \<lparr>modules = [ex_module], reflectOffs_m = Map.empty, mem = ex_mem,
     descs = ex_descs, goarch_wasm = False, big_endian = False\<rparr>"

definition ex_state_text :: state where
  "ex_state_text = ex_state\<lparr>modules := [ex_module\<lparr>text' := 0x5000, etext := 0xA000,
     textsectmap := ex_sects\<rparr>]\<rparr>"


text \<open>
  Two modules, over \<open>[0x1000, 0x2000)\<close> and \<open>[0x3000, 0x4000)\<close>, each with its own
  copy of \<^verbatim>\<open>type S struct { next *S }\<close>: the struct \<open>pkg.S\<close> at offset 0 of the module
  and the pointer \<open>*pkg.S\<close> at offset \<open>0x40\<close>, which every module lists as a typelink.
  The first module also has a slice descriptor at offset \<open>0x80\<close>, its other typelink.
  The state \<open>ex_pair h ta tb\<close> gives the pointer descriptor of the second module the
  stored hash \<open>h\<close> (all other hashes are 7) and the two modules the override maps \<open>ta\<close>
  and \<open>tb\<close>.
\<close>

definition ex_cyclic_mem :: "addr \<rightharpoonup> 8 word" where
  "ex_cyclic_mem = map_of
     [(0x1850, 0), (0x1851, 0), (0x1852, 6), (0x1853, 42), (0x1854, 112), (0x1855, 107),
      (0x1856, 103), (0x1857, 46), (0x1858, 83),
      (0x1860, 0), (0x1861, 0), (0x1862, 4), (0x1863, 110), (0x1864, 101), (0x1865, 120),
      (0x1866, 116),
      (0x3850, 0), (0x3851, 0), (0x3852, 6), (0x3853, 42), (0x3854, 112), (0x3855, 107),
      (0x3856, 103), (0x3857, 46), (0x3858, 83),
      (0x3860, 0), (0x3861, 0), (0x3862, 4), (0x3863, 110), (0x3864, 101), (0x3865, 120),
      (0x3866, 116)]"

definition ex_pair_descs :: "32 word \<Rightarrow> addr \<rightharpoonup> descriptor" where
  "ex_pair_descs h = map_of
     [(0x1000, \<lparr>typ' = ex_hdr\<lparr>tflag := 6, kind := 25, str := 0x850\<rparr>,
                overlay = StructT 0 [\<lparr>fname = 0x1860, ftyp = 0x1040, offsetAnon = 0\<rparr>],
                unc = ex_unc\<rparr>),
      (0x1040, \<lparr>typ' = ex_hdr\<lparr>kind := 22, str := 0x850\<rparr>,
                overlay = PtrT 0x1000, unc = ex_unc\<rparr>),
      (0x1080, \<lparr>typ' = ex_hdr\<lparr>kind := 23, str := 0x850\<rparr>,
                overlay = SliceT 0x1000, unc = ex_unc\<rparr>),
      (0x3000, \<lparr>typ' = ex_hdr\<lparr>tflag := 6, kind := 25, str := 0x850\<rparr>,
                overlay = StructT 0 [\<lparr>fname = 0x3860, ftyp = 0x3040, offsetAnon = 0\<rparr>],
                unc = ex_unc\<rparr>),
      (0x3040, \<lparr>typ' = ex_hdr\<lparr>hash := h, kind := 22, str := 0x850\<rparr>,
                overlay = PtrT 0x3000, unc = ex_unc\<rparr>)]"

definition ex_pair ::
  "32 word \<Rightarrow> (typeOff \<rightharpoonup> addr) option \<Rightarrow> (typeOff \<rightharpoonup> addr) option \<Rightarrow> state" where
  "ex_pair h ta tb =
     \<lparr>modules = [ex_module\<lparr>typelinks := [0x80, 0x40], typemap := ta\<rparr>,
                 ex_module\<lparr>types := 0x3000, etypes := 0x4000, typemap := tb\<rparr>],
      reflectOffs_m = Map.empty, mem = ex_cyclic_mem, descs = ex_pair_descs h,
      goarch_wasm = False, big_endian = False\<rparr>"

text \<open>The two modules before the pass: equal hashes, no override maps.\<close>

definition ex_cyclic :: state where
  "ex_cyclic = ex_pair 7 None None"

section \<open>Auxiliary predicates\<close>

text \<open>
  A result of a comparison started with memo \<open>sn\<close> is \<open>ok\<close> when it is there (the fuel
  was enough) and, where it is a boolean, its memo extends \<open>sn\<close>. A comparison \<open>eq\<close> is
  \<open>good\<close> up to \<open>n\<close> when it is ok on every memo that lacks fewer than \<open>n\<close> pairs.
\<close>

definition ok :: "seen \<Rightarrow> eqres \<Rightarrow> bool" where
  "ok sn r = (case r of None \<Rightarrow> False | Some (Inl e) \<Rightarrow> True | Some (Inr (b, sn')) \<Rightarrow> sn \<subseteq> sn')"

definition good :: "nat \<Rightarrow> (addr \<Rightarrow> addr \<Rightarrow> seen \<Rightarrow> eqres) \<Rightarrow> bool" where
  "good n eq = (\<forall>t v sn. card (- sn) < n \<longrightarrow> ok sn (eq t v sn))"

text \<open>\<open>eq'\<close> returns whatever \<open>eq\<close> returns.\<close>

definition le_eq ::
  "(addr \<Rightarrow> addr \<Rightarrow> seen \<Rightarrow> eqres) \<Rightarrow> (addr \<Rightarrow> addr \<Rightarrow> seen \<Rightarrow> eqres) \<Rightarrow> bool" where
  "le_eq eq eq' = (\<forall>t v sn r. eq t v sn = Some r \<longrightarrow> eq' t v sn = Some r)"

text \<open>
  For the deduplication pass. \<open>canonical s k lnk\<close> is the descriptor that the pass takes
  for the typelink \<open>lnk\<close> of module \<open>k\<close> (\<open>canon_md\<close>, of a module by value): what its
  override map holds, or with no map the descriptor at that offset.
  \<open>with_typemaps s tms\<close> is \<open>s\<close> with the override maps \<open>tms\<close> installed in its modules,
  and a \<open>variant\<close> of \<open>s\<close> is such a state. \<open>reports_equal n s t v\<close>: \<^verbatim>\<open>typesEqual\<close> with an
  empty memo returns true. \<open>hash_at s t\<close>: the stored hash of the descriptor at \<open>t\<close>.
  \<open>owns s k p\<close>: module \<open>k\<close> is the first module whose range \<open>[types, etypes)\<close> holds
  \<open>p\<close>, the module the resolvers pick for the context address \<open>p\<close>.
  \<open>collected s s2 j th\<close>: the buckets \<open>th\<close> hold exactly the canonical descriptors of the
  typelinks of the modules below \<open>j\<close>, each under its stored hash.
\<close>

definition canonical :: "state \<Rightarrow> nat \<Rightarrow> 32 word \<Rightarrow> addr" where
  "canonical s k lnk =
     (case typemap (modules s ! k) of
        None \<Rightarrow> types (modules s ! k) + scast lnk
      | Some tm \<Rightarrow> map_ptr tm lnk)"

definition with_typemaps :: "state \<Rightarrow> (typeOff \<rightharpoonup> addr) option list \<Rightarrow> state" where
  "with_typemaps s tms = s\<lparr>modules := map (\<lambda>(m, tm). m\<lparr>typemap := tm\<rparr>) (zip (modules s) tms)\<rparr>"

definition reports_equal :: "nat \<Rightarrow> state \<Rightarrow> addr \<Rightarrow> addr \<Rightarrow> bool" where
  "reports_equal n s t v =
     (case typesEqual n s t v {} of Some (Inr (b, sn)) \<Rightarrow> b | _ \<Rightarrow> False)"

definition hash_at :: "state \<Rightarrow> addr \<Rightarrow> 32 word option" where
  "hash_at s t = map_option (\<lambda>d. hash (typ' d)) (descs s t)"

definition variant :: "state \<Rightarrow> state \<Rightarrow> bool" where
  "variant s s1 = (\<exists>tms. length tms = length (modules s) \<and> s1 = with_typemaps s tms)"

definition canon_md :: "moduledata \<Rightarrow> 32 word \<Rightarrow> addr" where
  "canon_md prev lnk =
     (case typemap prev of None \<Rightarrow> types prev + scast lnk | Some tm \<Rightarrow> map_ptr tm lnk)"

definition owns :: "state \<Rightarrow> nat \<Rightarrow> addr \<Rightarrow> bool" where
  "owns s k p =
     (k < length (modules s) \<and> types (modules s ! k) \<le> p \<and> p < etypes (modules s ! k) \<and>
      (\<forall>k' < k. \<not> (types (modules s ! k') \<le> p \<and> p < etypes (modules s ! k'))))"

definition collected :: "state \<Rightarrow> state \<Rightarrow> nat \<Rightarrow> typehash \<Rightarrow> bool" where
  "collected s s2 j th =
     ((\<forall>h. set (th h) = {t. \<exists>k x. k < j \<and> x \<in> set (typelinks (modules s ! k)) \<and>
                              t = canonical s2 k x \<and> hash_at s t = Some h}) \<and>
      (\<forall>k x. k < j \<and> x \<in> set (typelinks (modules s ! k)) \<longrightarrow> descs s (canonical s2 k x) \<noteq> None))"


section \<open>Evaluation lemmas\<close>

lemma load_string_numeral [simp]:
  "load_string s p (numeral k) =
     ebind (load8 s p) (\<lambda>b. ebind (load_string s (p + 1) (pred_numeral k)) (\<lambda>bs. Inr (b # bs)))"
  by (simp add: numeral_eq_Suc)

lemmas ex_defs = ex_state_def ex_module_def ex_descs_def ex_mem_def ex_hdr_def ex_unc_def


lemmas ex_eval = type_string_def load_type_def ex_defs type_nameOff_def resolveNameOff_def
  ebind_def name_name_def name_nameLen_def load8_def name_data_def tflag_defs

lemma find_module_None_iff:
  "find_module ms base = None \<longleftrightarrow> (\<forall>md \<in> set ms. \<not> (types md \<le> base \<and> base < etypes md))"
  by (induction ms) auto


lemma ex_pair_fields:
  "modules (ex_pair h ta tb) =
     [ex_module\<lparr>typelinks := [0x80, 0x40], typemap := ta\<rparr>, ex_module\<lparr>types := 0x3000, etypes := 0x4000, typemap := tb\<rparr>]"
  "reflectOffs_m (ex_pair h ta tb) = Map.empty"
  "mem (ex_pair h ta tb) = ex_cyclic_mem"
  "descs (ex_pair h ta tb) = ex_pair_descs h"
  by (simp_all add: ex_pair_def)

lemmas ex_pair_defs = ex_pair_fields ex_pair_descs_def ex_cyclic_mem_def ex_module_def
  ex_hdr_def ex_unc_def

lemma ex_cyclic_fields:
  "modules ex_cyclic =
     [ex_module\<lparr>typelinks := [0x80, 0x40]\<rparr>, ex_module\<lparr>types := 0x3000, etypes := 0x4000\<rparr>]"
  "reflectOffs_m ex_cyclic = Map.empty"
  "mem ex_cyclic = ex_cyclic_mem"
  "descs ex_cyclic = ex_pair_descs 7"
  by (simp_all add: ex_cyclic_def ex_pair_def ex_module_def)

lemmas ex_cyclic_defs = ex_cyclic_fields ex_pair_descs_def ex_cyclic_mem_def ex_module_def
  ex_hdr_def ex_unc_def

lemmas eq_eval = typesEqual_body_def typesEqual_switch_def ret_def lift_def and_then_def
  type_string_def type_uncommon_def uncommon_equal_def load_type_def type_nameOff_def
  resolveNameOff_def ebind_def name_name_def name_nameLen_def name_tag_def name_tagLen_def
  load8_def name_data_def tflag_defs kind_defs

lemma ex_cyclic_revisit: "typesEqual 1 ex_cyclic 0x3000 0x1000 {(0x3040, 0x1040), (0x3000, 0x1000)} =
    Some (Inr (True, {(0x3040, 0x1040), (0x3000, 0x1000)}))"
  by (simp add: eq_eval)

lemma ex_cyclic_pointer: "typesEqual 2 ex_cyclic 0x3040 0x1040 {(0x3000, 0x1000)} =
    Some (Inr (True, {(0x3040, 0x1040), (0x3000, 0x1000)}))"
  unfolding numeral_2_eq_2 typesEqual.simps One_nat_def [symmetric]
  by (simp add: eq_eval ex_cyclic_defs ex_cyclic_revisit [unfolded ret_def])

lemma ex_cyclic_struct: "typesEqual 3 ex_cyclic 0x3000 0x1000 {} =
    Some (Inr (True, {(0x3040, 0x1040), (0x3000, 0x1000)}))"
  unfolding numeral_3_eq_3 typesEqual.simps numeral_2_eq_2 [symmetric]
  by (simp add: eq_eval ex_cyclic_defs ex_cyclic_pointer)


lemma ex_pair_revisit:
  "typesEqual 1 (ex_pair h ta tb) 0x3040 0x1040 {(0x3000, 0x1000), (0x3040, 0x1040)} =
    Some (Inr (True, {(0x3000, 0x1000), (0x3040, 0x1040)}))"
  by (simp add: eq_eval)

lemma ex_pair_struct:
  "typesEqual 2 (ex_pair h ta tb) 0x3000 0x1000 {(0x3040, 0x1040)} =
    Some (Inr (True, {(0x3000, 0x1000), (0x3040, 0x1040)}))"
  unfolding numeral_2_eq_2 typesEqual.simps One_nat_def [symmetric]
  by (simp add: eq_eval ex_pair_defs ex_pair_revisit [unfolded ret_def])

lemma ex_pair_pointer:
  "typesEqual 3 (ex_pair h ta tb) 0x3040 0x1040 {} =
    Some (Inr (True, {(0x3000, 0x1000), (0x3040, 0x1040)}))"
  unfolding numeral_3_eq_3 typesEqual.simps numeral_2_eq_2 [symmetric]
  by (simp add: eq_eval ex_pair_defs ex_pair_struct)

lemma ex_pair_reports_equal: "reports_equal 3 (ex_pair h ta tb) 0x3040 0x1040"
  by (simp add: reports_equal_def ex_pair_pointer)

lemma ex_pair_slice:
  "typesEqual 3 (ex_pair h ta tb) 0x3040 0x1080 {} = Some (Inr (False, {(0x3040, 0x1080)}))"
  unfolding numeral_3_eq_3 typesEqual.simps numeral_2_eq_2 [symmetric]
  by (simp add: eq_eval ex_pair_defs)

lemma ex_pair_reports_unequal: "\<not> reports_equal 3 (ex_pair h ta tb) 0x3040 0x1080"
  by (simp add: reports_equal_def ex_pair_slice)

lemma ex_pair_set_typemap: "set_typemap (ex_pair h ta tb) (Suc 0) tm = ex_pair h ta (Some tm)"
  by (simp add: set_typemap_def ex_pair_def)

lemma ex_pair_with_typemaps: "with_typemaps (ex_pair h ta tb) [ta', tb'] = ex_pair h ta' tb'"
  by (simp add: with_typemaps_def ex_pair_def)

lemma ex_pair_find_candidate:
  "find_candidate 3 (ex_pair h ta tb) 0x3040 [0x1080, 0x1040] = Some (Inr 0x1040)"
  by (simp add: ex_pair_slice ex_pair_pointer)

lemma ex_pair_collect:
  "collect (ex_pair h None tb) (modules (ex_pair h None tb) ! 0)
     (typelinks (modules (ex_pair h None tb) ! 0)) (\<lambda>h. []) = Inr ((\<lambda>h. [])(7 := [0x1080, 0x1040]))"
  by (simp add: ex_pair_defs load_type_def ebind_def)

lemma ex_pair_module1:
  "modules (ex_pair h ta tb) ! Suc 0 = ex_module\<lparr>types := 0x3000, etypes := 0x4000, typemap := tb\<rparr>"
  by (simp add: ex_pair_fields)

lemma ex_pair_build_same:
  "build_typemap 3 (ex_pair 7 None (Some Map.empty)) ((\<lambda>h. [])(7 := [0x1080, 0x1040])) (Suc 0) [0x40] =
      Some (Inr (ex_pair 7 None (Some [0x40 \<mapsto> 0x1040])))"
  by (simp add: Let_def ex_pair_module1 ex_pair_set_typemap ex_pair_slice ex_pair_pointer
      load_type_def ex_pair_fields(4) ex_pair_descs_def ex_module_def ex_hdr_def)

lemma ex_pair_build_other:
  "build_typemap 3 (ex_pair 8 None (Some Map.empty)) ((\<lambda>h. [])(7 := [0x1080, 0x1040])) (Suc 0) [0x40] =
      Some (Inr (ex_pair 8 None (Some [0x40 \<mapsto> 0x3040])))"
  by (simp add: Let_def ex_pair_module1 ex_pair_set_typemap load_type_def
      ex_pair_fields(4) ex_pair_descs_def ex_module_def ex_hdr_def)

lemma ex_pair_links: "typelinks (modules (ex_pair h ta tb) ! Suc 0) = [0x40]"
  by (simp add: ex_pair_fields ex_module_def)

lemma ex_pair_fresh: "typemap (modules (ex_pair h ta None) ! Suc 0) = None"
  by (simp add: ex_pair_fields)

lemma ex_pair_typelinksinit_same:
  "typelinksinit 3 (ex_pair 7 None None) = Some (Inr (ex_pair 7 None (Some [0x40 \<mapsto> 0x1040])))"
proof -
  have u: "[1..<length (modules (ex_pair 7 None None))] = [Suc 0]"
    by (simp add: ex_pair_fields)
  have l: "\<not> length (modules (ex_pair 7 None None)) \<le> 1"
    by (simp add: ex_pair_fields)
  show ?thesis
    unfolding typelinksinit_def if_not_P [OF l] u
    by (simp add: Let_def ex_pair_collect ex_pair_fresh ex_pair_links ex_pair_set_typemap
        ex_pair_build_same del: build_typemap.simps)
qed

lemma ex_pair_typelinksinit_other:
  "typelinksinit 3 (ex_pair 8 None None) = Some (Inr (ex_pair 8 None (Some [0x40 \<mapsto> 0x3040])))"
proof -
  have u: "[1..<length (modules (ex_pair 8 None None))] = [Suc 0]"
    by (simp add: ex_pair_fields)
  have l: "\<not> length (modules (ex_pair 8 None None)) \<le> 1"
    by (simp add: ex_pair_fields)
  show ?thesis
    unfolding typelinksinit_def if_not_P [OF l] u
    by (simp add: Let_def ex_pair_collect ex_pair_fresh ex_pair_links ex_pair_set_typemap
        ex_pair_build_other del: build_typemap.simps)
qed

section \<open>Offset resolver: offset zero and unowned context addresses\<close>

text \<open>
  Claim C9. With offset 0, \<^verbatim>\<open>resolveNameOff\<close> returns the empty name (the nil name,
  whose identifier is empty) and \<^verbatim>\<open>resolveTypeOff\<close> the null descriptor, in every
  state and for every context address: neither the module registry nor the registry of
  runtime-created objects has a say, and nothing is thrown.
\<close>

theorem resolve_offset_zero:
  "resolveNameOff s ptrInModule 0 = Inr 0 \<and> name_name s 0 = Inr [] \<and>
   resolveTypeOff s ptrInModule 0 = Inr 0"
  by (simp add: resolveNameOff_def resolveTypeOff_def name_name_def)


text \<open>
  Claim C5, amended. For every offset other than 0 and every context address that lies
  in no module's range \<open>[types, etypes)\<close>, if the offset has no entry in the registry
  of runtime-created objects then \<^verbatim>\<open>resolveNameOff\<close> and \<^verbatim>\<open>resolveTypeOff\<close> throw; they
  return no address.
\<close>

theorem resolve_unowned_fatal:
  assumes "off \<noteq> 0"
    and "\<forall>md \<in> set (modules s). \<not> (types md \<le> ptrInModule \<and> ptrInModule < etypes md)"
    and "reflectOffs_m s off = None"
  shows "resolveNameOff s ptrInModule off =
           Inl (Throw ''runtime: name offset base pointer out of range'') \<and>
         resolveTypeOff s ptrInModule off =
           Inl (Throw ''runtime: type offset base pointer out of range'')"
proof -
  from assms(2) have "find_module (modules s) ptrInModule = None"
    by (simp add: find_module_None_iff)
  with assms(1,3) show ?thesis
    by (simp add: resolveNameOff_def resolveTypeOff_def map_ptr_def)
qed


text \<open>The amended claim at an unowned context address and the unregistered offset \<open>0x40\<close>.\<close>

theorem resolve_unowned_fatal_witness:
  "resolveNameOff ex_state 0x5000 0x40 =
     Inl (Throw ''runtime: name offset base pointer out of range'') \<and>
   resolveTypeOff ex_state 0x5000 0x40 =
     Inl (Throw ''runtime: type offset base pointer out of range'')"
  using resolve_unowned_fatal [of "0x40" ex_state "0x5000"]
  by (simp add: ex_defs)


text \<open>
  As stated for every offset the claim fails: at offset 0, with an unowned context
  address and no entry for 0 in the registry, both resolvers return.
\<close>

theorem resolve_unowned_zero_returns:
  "find_module (modules ex_state) 0x5000 = None \<and> reflectOffs_m ex_state 0 = None \<and>
   resolveNameOff ex_state 0x5000 0 = Inr 0 \<and> resolveTypeOff ex_state 0x5000 0 = Inr 0"
  by (simp add: resolveNameOff_def resolveTypeOff_def ex_defs)


section \<open>Descriptor accessors\<close>

text \<open>
  Claim C10. For a descriptor with the extra-leading-star flag set whose name resolves to
  \<open>nm\<close>, \<^verbatim>\<open>string()\<close> returns \<open>nm\<close> without its first byte when \<open>nm\<close> is not empty, and
  the slice expression is out of bounds when \<open>nm\<close> is empty.
\<close>

theorem type_string_extra_star:
  assumes "descs s t = Some d"
    and "tflag (typ' d) AND tflagExtraStar \<noteq> 0"
    and "ebind (type_nameOff s t (str (typ' d))) (name_name s) = Inr nm"
  shows "type_string s t = (if nm = [] then Inl SliceBounds else Inr (tl nm))"
proof -
  from assms(3) obtain n where n: "type_nameOff s t (str (typ' d)) = Inr n" "name_name s n = Inr nm"
    by (auto simp: ebind_def split: sum.splits)
  have "(1 \<le> length nm) = (nm \<noteq> [])" by (cases nm) auto
  with assms(1,2) n show ?thesis
    by (simp add: type_string_def load_type_def ebind_def drop_Suc)
qed


text \<open>The descriptor at \<open>0x1040\<close> is named \<open>*T\<close>; the one at \<open>0x1080\<close> has the empty name.\<close>

theorem type_string_extra_star_witness:
  "type_string ex_state 0x1040 = Inr [84] \<and> type_string ex_state 0x1080 = Inl SliceBounds"
proof -
  have a: "type_string ex_state 0x1040 = Inr [84]"
    using type_string_extra_star [of ex_state "0x1040" "the (descs ex_state 0x1040)" "[42, 84]"]
    by (simp add: ex_eval)
  have b: "type_string ex_state 0x1080 = Inl SliceBounds"
    using type_string_extra_star [of ex_state "0x1080" "the (descs ex_state 0x1080)" "[]"]
    by (simp add: ex_eval)
  from a b show ?thesis by simp
qed


lemma name_scan_no_dot:
  "46 \<notin> set s \<Longrightarrow> - 1 \<le> i \<Longrightarrow> i < int (length s) \<Longrightarrow> name_scan s i = - 1"
proof (induction s i rule: name_scan.induct)
  case (1 s i)
  show ?case
  proof (cases "i \<ge> 0")
    case True
    with 1(2,4) have "s ! nat i \<noteq> 46" by (metis nat_less_iff nth_mem)
    with True 1 show ?thesis by (simp add: name_scan.simps [of s i])
  next
    case False
    with 1(3) have "i = - 1" by simp
    then show ?thesis by (subst name_scan.simps) simp
  qed
qed

lemma name_scan_last_dot:
  "s = p @ 46 # q \<Longrightarrow> 46 \<notin> set q \<Longrightarrow> int (length p) \<le> i \<Longrightarrow> i < int (length s) \<Longrightarrow>
   name_scan s i = int (length p)"
proof (induction s i rule: name_scan.induct)
  case (1 s i)
  show ?case
  proof (cases "i = int (length p)")
    case True
    with 1(2) show ?thesis by (subst name_scan.simps) simp
  next
    case False
    with 1(4) have gt: "int (length p) < i" by simp
    then have ge: "i \<ge> 0" by simp
    from gt 1(5) 1(2) have idx: "nat i - Suc (length p) < length q" by auto
    from gt have "s ! nat i = q ! (nat i - Suc (length p))"
      using 1(2) by (auto simp: nth_append nth_Cons')
    with idx 1(3) have "s ! nat i \<noteq> 46" by (metis nth_mem)
    moreover from this ge 1 gt have "name_scan s (i - 1) = int (length p)" by simp
    ultimately show ?thesis using ge by (simp add: name_scan.simps [of s i])
  qed
qed


text \<open>
  Claim C7. \<^verbatim>\<open>name()\<close> returns the empty string when the is-named flag is clear;
  otherwise, when \<^verbatim>\<open>string()\<close> returns \<open>p.q\<close> with no dot in \<open>q\<close> it returns \<open>q\<close>, and when
  \<^verbatim>\<open>string()\<close> returns a string \<open>w\<close> with no dot it returns \<open>w\<close>.
\<close>

theorem type_name_spec:
  assumes "descs s t = Some d"
  shows "(tflag (typ' d) AND tflagNamed = 0 \<longrightarrow> type_name s t = Inr []) \<and>
         (tflag (typ' d) AND tflagNamed \<noteq> 0 \<and> type_string s t = Inr (p @ 46 # q) \<and> 46 \<notin> set q
            \<longrightarrow> type_name s t = Inr q) \<and>
         (tflag (typ' d) AND tflagNamed \<noteq> 0 \<and> type_string s t = Inr w \<and> 46 \<notin> set w
            \<longrightarrow> type_name s t = Inr w)"
proof (intro conjI impI)
  assume "tflag (typ' d) AND tflagNamed = 0"
  with assms show "type_name s t = Inr []"
    by (simp add: type_name_def load_type_def ebind_def)
next
  assume a: "tflag (typ' d) AND tflagNamed \<noteq> 0 \<and> type_string s t = Inr (p @ 46 # q) \<and> 46 \<notin> set q"
  then have "name_scan (p @ 46 # q) (int (length (p @ 46 # q)) - 1) = int (length p)"
    by (intro name_scan_last_dot [of _ p q]) auto
  with a assms show "type_name s t = Inr q"
    by (simp add: type_name_def load_type_def ebind_def nat_add_distrib)
next
  assume a: "tflag (typ' d) AND tflagNamed \<noteq> 0 \<and> type_string s t = Inr w \<and> 46 \<notin> set w"
  then have "name_scan w (int (length w) - 1) = - 1"
    by (intro name_scan_no_dot) auto
  with a assms show "type_name s t = Inr w"
    by (simp add: type_name_def load_type_def ebind_def)
qed


text \<open>
  An unnamed descriptor, the named descriptor \<open>pkg.Foo\<close> and a named descriptor whose
  textual form \<open>b\<close> has no dot.
\<close>

theorem type_name_spec_witness:
  "type_name ex_state 0x1040 = Inr [] \<and>
   type_name ex_state 0x1000 = Inr (map of_char ''Foo'') \<and>
   type_name ex_state 0x10C0 = Inr (map of_char ''b'')"
proof -
  have a: "type_name ex_state 0x1040 = Inr []"
    using type_name_spec [of ex_state "0x1040" "the (descs ex_state 0x1040)"]
    by (simp add: ex_defs tflag_defs)
  have "type_string ex_state 0x1000 = Inr (map of_char ''pkg'' @ 46 # map of_char ''Foo'')"
    by (simp add: ex_eval)
  then have b: "type_name ex_state 0x1000 = Inr (map of_char ''Foo'')"
    using type_name_spec [of ex_state "0x1000" "the (descs ex_state 0x1000)"
        "map of_char ''pkg''" "map of_char ''Foo''"]
    by (simp add: ex_defs tflag_defs)
  have "type_string ex_state 0x10C0 = Inr (map of_char ''b'')"
    by (simp add: ex_eval)
  then have c: "type_name ex_state 0x10C0 = Inr (map of_char ''b'')"
    using type_name_spec [of ex_state "0x10C0" "the (descs ex_state 0x10C0)" _ _
        "map of_char ''b''"]
    by (simp add: ex_defs tflag_defs)
  from a b c show ?thesis by simp
qed


text \<open>
  Claim C3, amended. \<^verbatim>\<open>pkgpath()\<close> first looks for uncommon data: when it is present
  the result is the name at its package-path offset, for every kind. Only otherwise
  does a struct or an interface yield the package-path name embedded in its trailer,
  and every other kind the empty string.
\<close>

theorem type_pkgpath_spec:
  assumes "descs s t = Some d"
  shows "(tflag (typ' d) AND tflagUncommon \<noteq> 0 \<and>
            overlay_of_kind (kind (typ' d) AND kindMask) (overlay d)
            \<longrightarrow> type_pkgpath s t = ebind (resolveNameOff s t (pkgpath (unc d))) (name_name s)) \<and>
         (tflag (typ' d) AND tflagUncommon = 0 \<and> kind (typ' d) AND kindMask = kindStruct \<and>
            overlay d = StructT pp fs
            \<longrightarrow> type_pkgpath s t = name_name s pp) \<and>
         (tflag (typ' d) AND tflagUncommon = 0 \<and> kind (typ' d) AND kindMask = kindInterface \<and>
            overlay d = InterfaceT pp mb ms
            \<longrightarrow> type_pkgpath s t = name_name s pp) \<and>
         (tflag (typ' d) AND tflagUncommon = 0 \<and> kind (typ' d) AND kindMask \<noteq> kindStruct \<and>
            kind (typ' d) AND kindMask \<noteq> kindInterface
            \<longrightarrow> type_pkgpath s t = Inr [])"
  using assms
  by (simp add: type_pkgpath_def type_uncommon_def type_nameOff_def load_type_def ebind_def
      kindStruct_def kindInterface_def)


text \<open>
  A struct with uncommon data, a struct and an interface without, and a pointer type
  without.
\<close>

theorem type_pkgpath_spec_witness:
  "type_pkgpath ex_state 0x1000 = Inr (map of_char ''a'') \<and>
   type_pkgpath ex_state 0x1100 = Inr (map of_char ''b'') \<and>
   type_pkgpath ex_state 0x1140 = Inr (map of_char ''a'') \<and>
   type_pkgpath ex_state 0x1040 = Inr []"
proof -
  have n: "name_name ex_state 0x1830 = Inr (map of_char ''b'')"
    "name_name ex_state 0x1840 = Inr (map of_char ''a'')"
    by (simp_all add: ex_eval)
  have a: "type_pkgpath ex_state 0x1000 = Inr (map of_char ''a'')"
    using type_pkgpath_spec [of ex_state "0x1000" "the (descs ex_state 0x1000)"]
    by (simp add: overlay_of_kind_def kind_defs ex_eval)
  have b: "type_pkgpath ex_state 0x1100 = Inr (map of_char ''b'')"
    using type_pkgpath_spec [of ex_state "0x1100" "the (descs ex_state 0x1100)" "0x1830" "[]"] n
    by (simp add: kind_defs ex_defs tflag_defs)
  have c: "type_pkgpath ex_state 0x1140 = Inr (map of_char ''a'')"
    using type_pkgpath_spec [of ex_state "0x1140" "the (descs ex_state 0x1140)" "0x1840" _ "0" "[]"] n
    by (simp add: kind_defs ex_defs tflag_defs)
  have d: "type_pkgpath ex_state 0x1040 = Inr []"
    using type_pkgpath_spec [of ex_state "0x1040" "the (descs ex_state 0x1040)"]
    by (simp add: kind_defs ex_defs tflag_defs)
  from a b c d show ?thesis by simp
qed


text \<open>
  As stated the claim fails: the struct at \<open>0x1000\<close> carries uncommon data whose
  package path is \<open>a\<close>, its trailer embeds the package path \<open>b\<close>, and \<^verbatim>\<open>pkgpath()\<close>
  returns \<open>a\<close>.
\<close>

theorem type_pkgpath_uncommon_first:
  "descs ex_state 0x1000 =
     Some \<lparr>typ' = ex_hdr\<lparr>tflag := 5, kind := 25, str := 0x800\<rparr>,
           overlay = StructT 0x1830 [], unc = ex_unc\<rparr> \<and>
   name_name ex_state 0x1830 = Inr (map of_char ''b'') \<and>
   type_pkgpath ex_state 0x1000 = Inr (map of_char ''a'')"
  by (simp add: type_pkgpath_def type_uncommon_def overlay_of_kind_def kind_defs ex_eval)


section \<open>Function types\<close>

lemma mask15: "(push_bit 15 1 - 1 :: 16 word) = mask 15"
  by (simp add: mask_eq_exp_minus_1)

text \<open>\<^verbatim>\<open>dotdotdot()\<close> tests the high bit of the stored output count, for every descriptor.\<close>

lemma functype_dotdotdot_bit: "functype_dotdotdot t = bit (outCount t) 15"
  unfolding functype_dotdotdot_def
  by (simp only: bit_iff_and_push_bit_not_eq_0)

text \<open>
  Where the input count plus the masked output count stays below \<open>2^16\<close>, \<^verbatim>\<open>out()\<close> is
  the slice behind the inputs whose length is the output count with the variadic bit
  masked off.
\<close>

lemma functype_out_in_range:
  assumes "unat (inCount t) + unat (take_bit 15 (outCount t)) < 2 ^ 16"
  shows "functype_out t = Inr (unat (inCount t), unat (take_bit 15 (outCount t)))"
proof -
  have m: "outCount t AND (push_bit 15 1 - 1) = take_bit 15 (outCount t)"
    by (simp only: mask15 take_bit_eq_mask)
  from assms have s: "unat (inCount t + take_bit 15 (outCount t)) =
      unat (inCount t) + unat (take_bit 15 (outCount t))"
    by (simp add: unat_add_lem [THEN iffD1])
  from assms show ?thesis
    unfolding functype_out_def Let_def m s
    by (simp add: slice_array_def)
qed

text \<open>
  Two inputs and the output count \<open>1 | variadicBit\<close>: variadic, and one returned type.
\<close>

lemma functype_out_example:
  "functype_out ex_func = Inr (2, 1) \<and> functype_dotdotdot ex_func = True"
  using functype_out_in_range [of ex_func]
  by (simp add: ex_func_def functype_dotdotdot_bit)

text \<open>
  Claim C6 at a function descriptor with 65535 inputs and one output (not variadic): the
  stored output count with the variadic bit masked off is 1, so the view of the returned
  types should have length 1; but \<^verbatim>\<open>out()\<close> adds the two bounds in \<^verbatim>\<open>uint16\<close>, the
  upper bound wraps to 0, below the lower bound 65535, and the slice expression panics.
\<close>

theorem functype_out_wraps:
  "unat (take_bit 15 (outCount ex_func_wide)) = 1 \<and>
   functype_dotdotdot ex_func_wide = False \<and>
   unat (inCount ex_func_wide + (outCount ex_func_wide AND (push_bit 15 1 - 1))) = 0 \<and>
   functype_out ex_func_wide = Inl SliceBounds"
  by (simp add: functype_out_def functype_dotdotdot_def slice_array_def ex_func_wide_def)


section \<open>Code addresses\<close>

text \<open>
  Claim C4 at the offset where the second of two code segments begins: the offset lies
  in the half-open range of the second segment only, whose translation is \<open>0x9000\<close>, but
  the scan accepts the closed range of the first segment and returns \<open>0x5010\<close>.
\<close>

theorem textOff_closed_range:
  "type_textOff ex_state_text 0x1000 16 = Inr 0x5010 \<and>
   spec_textsect_select ex_sects 16 = Some 0x9000"
  by (simp add: type_textOff_def ex_state_text_def ex_sects_def ex_defs)

section \<open>Name codec\<close>

lemma be16:
  fixes b1 b2 :: "8 word"
  shows "unat (push_bit 8 (ucast b1 :: 16 word) OR ucast b2) = 256 * unat b1 + unat b2"
proof -
  have d: "push_bit 8 (ucast b1 :: 16 word) OR ucast b2 = push_bit 8 (ucast b1) + ucast b2"
    by (rule disjunctive_add [symmetric]) (auto simp: bit_simps dest: bit_imp_le_length)
  have lt: "unat b1 < 256" "unat b2 < 256"
    using unsigned_less [of b1] unsigned_less [of b2] by simp_all
  have u2: "unat (ucast b2 :: 16 word) = unat b2" "unat (ucast b1 :: 16 word) = unat b1"
    using lt by (simp_all add: unsigned_ucast_eq take_bit_nat_eq_self)
  have u1: "unat (push_bit 8 (ucast b1 :: 16 word)) = 256 * unat b1"
  proof -
    from lt(1) have "unat (ucast b1 :: 16 word) * unat (256 :: 16 word) < 2 ^ LENGTH(16)"
      by (simp add: u2)
    then have "unat ((ucast b1 :: 16 word) * 256) = unat (ucast b1 :: 16 word) * unat (256 :: 16 word)"
      by (rule unat_mult_lem [THEN iffD1])
    then show ?thesis by (simp add: u2 push_bit_eq_mult)
  qed
  from lt have "unat (push_bit 8 (ucast b1 :: 16 word)) + unat (ucast b2 :: 16 word) < 2 ^ 16"
    by (simp add: u1 u2)
  then have "unat (push_bit 8 (ucast b1 :: 16 word) + ucast b2) = 256 * unat b1 + unat b2"
    by (simp add: unat_add_lem [THEN iffD1] u1 u2)
  with d show ?thesis by simp
qed

lemma flag_bit: "(flags AND push_bit k 1 = 0) = (\<not> bit flags k)" for flags :: "8 word"
  by (simp only: bit_iff_and_push_bit_not_eq_0) simp

lemma flag_bit1: "(flags AND 2 = 0) = (\<not> bit flags (Suc 0))" for flags :: "8 word"
  using flag_bit [of flags 1] by simp

lemma flag_bit2: "(flags AND 4 = 0) = (\<not> bit flags 2)" for flags :: "8 word"
  using flag_bit [of flags 2] by simp


text \<open>
  Claim C8. For a name record at a non-nil address \<open>n\<close> with flags byte \<open>flags\<close>: the
  identifier length is the 16-bit big-endian value at offsets 1-2 and the identifier is
  the bytes from offset 3; the tag length (big-endian, 16 bits) and the tag bytes follow
  the identifier exactly when bit 1 of the flags is set; and when bit 2 is set the
  package path is the identifier of the name record that \<^verbatim>\<open>resolveNameOff\<close> finds for the
  4-byte offset stored after the identifier and after the tag. A record is well formed
  when its has-tag bit comes with a tag that is not empty.
\<close>

theorem name_decode:
  assumes "n \<noteq> 0"
    and "mem s n = Some flags" and "mem s (n + 1) = Some b1" and "mem s (n + 2) = Some b2"
    and "nl = 256 * unat b1 + unat b2"
    and "tlen = 256 * unat c1 + unat c2"
  shows "name_nameLen s n = Inr nl \<and>
         name_name s n = load_string s (n + 3) nl \<and>
         (\<not> bit flags 1 \<longrightarrow> name_tagLen s n = Inr 0 \<and> name_tag s n = Inr []) \<and>
         (bit flags 1 \<and> mem s (n + 3 + of_nat nl) = Some c1 \<and>
            mem s (n + 3 + of_nat nl + 1) = Some c2 \<longrightarrow>
            name_tagLen s n = Inr tlen \<and>
            name_tag s n = load_string s (n + 3 + of_nat nl + 2) tlen) \<and>
         (\<not> bit flags 2 \<longrightarrow> name_pkgPath s n = Inr []) \<and>
         (bit flags 2 \<and> \<not> bit flags 1 \<longrightarrow>
            name_pkgPath s n =
              ebind (load_nameOff s (n + 3 + of_nat nl)) (\<lambda>off.
              ebind (resolveNameOff s n off) (name_name s))) \<and>
         (bit flags 2 \<and> bit flags 1 \<and> mem s (n + 3 + of_nat nl) = Some c1 \<and>
            mem s (n + 3 + of_nat nl + 1) = Some c2 \<and> 0 < tlen \<longrightarrow>
            name_pkgPath s n =
              ebind (load_nameOff s (n + 3 + of_nat nl + 2 + of_nat tlen)) (\<lambda>off.
              ebind (resolveNameOff s n off) (name_name s)))"
proof -
  have nlen: "name_nameLen s n = Inr nl"
    using assms by (simp add: name_nameLen_def name_data_def load8_def ebind_def be16)
  have nm: "name_name s n = load_string s (n + 3) nl"
    using assms(1) nlen by (simp add: name_name_def name_data_def ebind_def)
  have t0: "\<not> bit flags 1 \<Longrightarrow> name_tagLen s n = Inr 0"
    using assms(2) by (simp add: name_tagLen_def name_data_def load8_def ebind_def flag_bit1 flag_bit2)
  have t1: "name_tagLen s n = Inr tlen"
    if "bit flags 1" "mem s (n + 3 + of_nat nl) = Some c1" "mem s (n + 3 + of_nat nl + 1) = Some c2"
    using that assms(2,6) nlen
    by (simp add: name_tagLen_def name_data_def load8_def ebind_def flag_bit1 flag_bit2 be16 add.assoc)
  have tg0: "\<not> bit flags 1 \<Longrightarrow> name_tag s n = Inr []"
    using t0 by (simp add: name_tag_def ebind_def)
  have tg1: "name_tag s n = load_string s (n + 3 + of_nat nl + 2) tlen"
    if "bit flags 1" "mem s (n + 3 + of_nat nl) = Some c1" "mem s (n + 3 + of_nat nl + 1) = Some c2"
    using t1 [OF that] nlen
    by (simp add: name_tag_def name_data_def ebind_def add.assoc)
  have p0: "\<not> bit flags 2 \<Longrightarrow> name_pkgPath s n = Inr []"
    using assms(1,2) by (simp add: name_pkgPath_def name_data_def load8_def ebind_def flag_bit1 flag_bit2)
  have p1: "name_pkgPath s n =
      ebind (load_nameOff s (n + 3 + of_nat nl)) (\<lambda>off. ebind (resolveNameOff s n off) (name_name s))"
    if "bit flags 2" "\<not> bit flags 1"
    using that assms(1,2) nlen t0
    by (simp add: name_pkgPath_def name_data_def load8_def ebind_def flag_bit1 flag_bit2 add.assoc)
  have p2: "name_pkgPath s n =
      ebind (load_nameOff s (n + 3 + of_nat nl + 2 + of_nat tlen))
        (\<lambda>off. ebind (resolveNameOff s n off) (name_name s))"
    if "bit flags 2" "bit flags 1" "mem s (n + 3 + of_nat nl) = Some c1"
      "mem s (n + 3 + of_nat nl + 1) = Some c2" "0 < tlen"
    using that(1,5) assms(1,2) nlen t1 [OF that(2,3,4)]
    by (simp add: name_pkgPath_def name_data_def load8_def ebind_def flag_bit1 flag_bit2 add.assoc)
  from nlen nm t0 t1 tg0 tg1 p0 p1 p2 show ?thesis by blast
qed

text \<open>
  The record \<open>Count\<close> at \<open>0x1900\<close> with its tag and its package path, the record
  \<open>pkg.Foo\<close> with neither, and the record \<open>x\<close> with a package path and no tag.
\<close>

theorem name_decode_witness:
  "name_nameLen ex_state 0x1900 = Inr 5 \<and>
   name_name ex_state 0x1900 = Inr (map of_char ''Count'') \<and>
   name_tag ex_state 0x1900 = Inr (map of_char ''js'') \<and>
   name_pkgPath ex_state 0x1900 = Inr (map of_char ''a'') \<and>
   name_name ex_state 0x1800 = Inr (map of_char ''pkg.Foo'') \<and>
   name_tag ex_state 0x1800 = Inr [] \<and>
   name_pkgPath ex_state 0x1800 = Inr [] \<and>
   name_name ex_state 0x1920 = Inr (map of_char ''x'') \<and>
   name_pkgPath ex_state 0x1920 = Inr (map of_char ''a'')"
proof -
  have m: "mem ex_state 0x1900 = Some 7" "mem ex_state (0x1900 + 1) = Some 0"
    "mem ex_state (0x1900 + 2) = Some 5"
    by (simp_all add: ex_defs)
  have c: "mem ex_state (0x1900 + 3 + of_nat 5) = Some 0"
    "mem ex_state (0x1900 + 3 + of_nat 5 + 1) = Some 2"
    by (simp_all add: ex_defs)
  have v: "(5 :: nat) = 256 * unat (0 :: 8 word) + unat (5 :: 8 word)"
    "(2 :: nat) = 256 * unat (0 :: 8 word) + unat (2 :: 8 word)"
    by simp_all
  have b: "bit (7 :: 8 word) 1" "bit (7 :: 8 word) 2"
    by simp_all
  have z: "(0x1900 :: addr) \<noteq> 0" by simp
  note d = name_decode [OF z m v]
  have s1: "load_string ex_state (0x1900 + 3) 5 = Inr (map of_char ''Count'')"
    by (simp add: ex_eval)
  have s2: "load_string ex_state (0x1900 + 3 + of_nat 5 + 2) 2 = Inr (map of_char ''js'')"
    by (simp add: ex_eval)
  have s3: "ebind (load_nameOff ex_state (0x1900 + 3 + of_nat 5 + 2 + of_nat 2))
       (\<lambda>off. ebind (resolveNameOff ex_state 0x1900 off) (name_name ex_state)) = Inr (map of_char ''a'')"
    by (simp add: ex_eval load_nameOff_def)
  from d b c s1 s2 s3 have first:
    "name_nameLen ex_state 0x1900 = Inr 5 \<and>
     name_name ex_state 0x1900 = Inr (map of_char ''Count'') \<and>
     name_tag ex_state 0x1900 = Inr (map of_char ''js'') \<and>
     name_pkgPath ex_state 0x1900 = Inr (map of_char ''a'')"
    by (simp only: simp_thms)
  have m': "mem ex_state 0x1800 = Some 1" "mem ex_state (0x1800 + 1) = Some 0"
    "mem ex_state (0x1800 + 2) = Some 7"
    by (simp_all add: ex_defs)
  have v': "(7 :: nat) = 256 * unat (0 :: 8 word) + unat (7 :: 8 word)"
    "(0 :: nat) = 256 * unat (0 :: 8 word) + unat (0 :: 8 word)"
    by simp_all
  have b': "\<not> bit (1 :: 8 word) 1" "\<not> bit (1 :: 8 word) 2"
    by simp_all
  have z': "(0x1800 :: addr) \<noteq> 0" by simp
  note d' = name_decode [OF z' m' v']
  have s1': "load_string ex_state (0x1800 + 3) 7 = Inr (map of_char ''pkg.Foo'')"
    by (simp add: ex_eval)
  from d' b' s1' have second:
    "name_name ex_state 0x1800 = Inr (map of_char ''pkg.Foo'') \<and>
     name_tag ex_state 0x1800 = Inr [] \<and> name_pkgPath ex_state 0x1800 = Inr []"
    by (simp only: simp_thms)
  have m'': "mem ex_state 0x1920 = Some 4" "mem ex_state (0x1920 + 1) = Some 0"
    "mem ex_state (0x1920 + 2) = Some 1"
    by (simp_all add: ex_defs)
  have v'': "(1 :: nat) = 256 * unat (0 :: 8 word) + unat (1 :: 8 word)"
    "(0 :: nat) = 256 * unat (0 :: 8 word) + unat (0 :: 8 word)"
    by simp_all
  have b'': "\<not> bit (4 :: 8 word) 1" "bit (4 :: 8 word) 2"
    by simp_all
  have z'': "(0x1920 :: addr) \<noteq> 0" by simp
  note d'' = name_decode [OF z'' m'' v'']
  have s1'': "load_string ex_state (0x1920 + 3) 1 = Inr (map of_char ''x'')"
    by (simp add: ex_eval)
  have s3'': "ebind (load_nameOff ex_state (0x1920 + 3 + of_nat 1))
       (\<lambda>off. ebind (resolveNameOff ex_state 0x1920 off) (name_name ex_state)) = Inr (map of_char ''a'')"
    by (simp add: ex_eval load_nameOff_def)
  from d'' b'' s1'' s3'' have third:
    "name_name ex_state 0x1920 = Inr (map of_char ''x'') \<and>
     name_pkgPath ex_state 0x1920 = Inr (map of_char ''a'')"
    by (simp only: simp_thms)
  from first second third show ?thesis by (simp only: simp_thms)
qed

section \<open>Structural equality terminates\<close>

text \<open>
  Every call inserts its pair into the memo before it recurses, so along a chain of
  nested calls the number of pairs the memo lacks falls; there are finitely many pairs of
  addresses, which bounds the depth of the recursion.
\<close>

lemma ok_ret [simp]: "ok sn (ret b sn)"
  by (simp add: ok_def ret_def)

lemma ok_abort [simp]: "ok sn (Some (Inl e))"
  by (simp add: ok_def)

lemma ok_Some: "ok sn r \<Longrightarrow> \<exists>x. r = Some x"
  by (cases r) (simp_all add: ok_def)

lemma ok_lift: "(\<And>x. m = Inr x \<Longrightarrow> ok sn (k x)) \<Longrightarrow> ok sn (lift m k)"
  by (cases m) (simp_all add: lift_def)

lemma ok_and_then:
  assumes "ok sn r" and "\<And>sn'. sn \<subseteq> sn' \<Longrightarrow> ok sn' (k sn')"
  shows "ok sn (and_then r k)"
proof (cases r)
  case None
  with assms(1) show ?thesis by (simp add: ok_def)
next
  case (Some x)
  show ?thesis
  proof (cases x)
    case (Inl e)
    with Some show ?thesis by (simp add: and_then_def)
  next
    case (Inr p)
    obtain b sn' where p: "p = (b, sn')" by (cases p)
    with Some Inr assms(1) have sub: "sn \<subseteq> sn'" by (simp add: ok_def)
    show ?thesis
    proof (cases b)
      case True
      from assms(2) [OF sub] have "ok sn' (k sn')" .
      then have "ok sn (k sn')"
        using sub by (auto simp: ok_def split: option.splits sum.splits)
      with Some Inr p True show ?thesis by (simp add: and_then_def)
    next
      case False
      with Some Inr p sub show ?thesis by (simp add: and_then_def ok_def)
    qed
  qed
qed

lemma card_compl_mono: "sn \<subseteq> sn' \<Longrightarrow> card (- sn') \<le> card (- sn)" for sn :: seen
  by (rule card_mono) auto

lemma good_call: "good n eq \<Longrightarrow> card (- sn) < n \<Longrightarrow> ok sn (eq t v sn)"
  by (simp add: good_def)

lemma good_later: "good n eq \<Longrightarrow> card (- sn) < n \<Longrightarrow> sn \<subseteq> sn' \<Longrightarrow> ok sn' (eq t v sn')"
  using card_compl_mono [of sn sn'] by (simp add: good_def)

lemma func_loop_ok:
  "good n eq \<Longrightarrow> card (- sn) < n \<Longrightarrow> ok sn (func_loop eq ft fv tin vin i k sn)"
proof (induction k arbitrary: i sn)
  case 0
  show ?case by simp
next
  case (Suc k)
  show ?case
    unfolding func_loop.simps
  proof (intro ok_lift ok_and_then)
    fix a b
    show "ok sn (eq a b sn)" using Suc.prems by (rule good_call)
  next
    fix a b sn'
    assume "sn \<subseteq> sn'"
    with Suc.prems(2) card_compl_mono [of sn sn'] have "card (- sn') < n" by simp
    with Suc.prems(1) show "ok sn' (func_loop eq ft fv tin vin (Suc i) k sn')"
      by (rule Suc.IH)
  qed
qed

lemma ok_if: "(c \<Longrightarrow> ok sn a) \<Longrightarrow> (\<not> c \<Longrightarrow> ok sn b) \<Longrightarrow> ok sn (if c then a else b)"
  by simp

lemmas ok_intros = ok_lift ok_if ok_and_then ok_ret ok_abort

lemma mhdr_loop_ok:
  "good n eq \<Longrightarrow> card (- sn) < n \<Longrightarrow> ok sn (mhdr_loop eq s tb tms vb vms sn)"
proof (induction tms arbitrary: tb vb vms sn)
  case Nil
  show ?case by simp
next
  case (Cons tm tms)
  show ?case
  proof (cases vms)
    case Nil
    then show ?thesis by simp
  next
    case (Cons vm vms')
    show ?thesis
      unfolding Cons mhdr_loop.simps
    proof (intro ok_intros, goal_cases)
      case (1 tname vname tn vn tp vp tityp vityp)
      show ?case using Cons.prems by (rule good_call)
    next
      case (2 tname vname tn vn tp vp tityp vityp sn')
      with Cons.prems(2) card_compl_mono [of sn sn'] have "card (- sn') < n" by simp
      with Cons.prems(1) show ?case by (rule Cons.IH)
    qed
  qed
qed

lemma fields_loop_ok:
  "good n eq \<Longrightarrow> card (- sn) < n \<Longrightarrow> ok sn (fields_loop eq s tfs vfs sn)"
proof (induction tfs arbitrary: vfs sn)
  case Nil
  show ?case by simp
next
  case (Cons tf tfs)
  show ?case
  proof (cases vfs)
    case Nil
    then show ?thesis by simp
  next
    case (Cons vf vfs')
    show ?thesis
      unfolding Cons fields_loop.simps
    proof (intro ok_intros, goal_cases)
      case (1 tn vn)
      show ?case using Cons.prems by (rule good_call)
    next
      case (2 tn vn sn' tt vt)
      with Cons.prems(2) card_compl_mono [of sn sn'] have "card (- sn') < n" by simp
      with Cons.prems(1) show ?case by (rule Cons.IH)
    qed
  qed
qed

lemma switch_ok:
  assumes "good n eq" and "card (- sn) < n"
  shows "ok sn (typesEqual_switch eq s k dt dv sn)"
proof -
  note call = good_call [OF assms]
  note later = good_later [OF assms]
  have fl: "ok sn' (func_loop eq ft fv tin vin i j sn')" if "sn \<subseteq> sn'" for sn' ft fv tin vin i j
    using assms(1) card_compl_mono [OF that] assms(2) by (intro func_loop_ok) auto
  show ?thesis
    unfolding typesEqual_switch_def
    by (intro ok_intros call later fl mhdr_loop_ok [OF assms] fields_loop_ok [OF assms]
          allI impI conjI | simp split: trailer.split)+
qed


lemma body_good:
  assumes "good n eq"
  shows "good (Suc n) (typesEqual_body eq s)"
  unfolding good_def
proof (intro allI impI)
  fix t v and sn0 :: seen
  assume c: "card (- sn0) < Suc n"
  show "ok sn0 (typesEqual_body eq s t v sn0)"
  proof (cases "(t, v) \<in> sn0")
    case True
    then show ?thesis by (simp add: typesEqual_body_def)
  next
    case False
    let ?sn = "insert (t, v) sn0"
    have "- ?sn \<subset> - sn0" using False by auto
    then have "card (- ?sn) < card (- sn0)" by (intro psubset_card_mono) auto
    with c have c': "card (- ?sn) < n" by simp
    have "ok ?sn (typesEqual_body eq s t v sn0)"
      using False unfolding typesEqual_body_def Let_def
      by (intro ok_intros switch_ok [OF assms c'] | simp)+
    then show ?thesis
      by (auto simp: ok_def split: option.splits sum.splits)
  qed
qed

lemma typesEqual_good: "good n (typesEqual n s)"
proof (induction n)
  case 0
  show ?case by (simp add: good_def)
next
  case (Suc n)
  have "typesEqual (Suc n) s = typesEqual_body (typesEqual n s) s"
    by (intro ext) simp
  with body_good [OF Suc] show ?case by simp
qed


text \<open>More fuel does not change a result.\<close>

lemma le_eqD: "le_eq eq eq' \<Longrightarrow> eq t v sn = Some r \<Longrightarrow> eq' t v sn = Some r"
  by (simp add: le_eq_def)

lemma lift_mono:
  "lift m k = Some r \<Longrightarrow> (\<And>x. m = Inr x \<Longrightarrow> k x = Some r \<Longrightarrow> k' x = Some r) \<Longrightarrow>
   lift m k' = Some r"
  by (cases m) (simp_all add: lift_def)

lemma and_then_mono:
  "and_then a k = Some r \<Longrightarrow> (\<And>x. a = Some x \<Longrightarrow> a' = Some x) \<Longrightarrow>
   (\<And>sn. k sn = Some r \<Longrightarrow> k' sn = Some r) \<Longrightarrow> and_then a' k' = Some r"
  by (auto simp: and_then_def split: option.splits sum.splits if_splits)

lemma if_mono:
  "(if c then a else b) = Some r \<Longrightarrow> (c \<Longrightarrow> a = Some r \<Longrightarrow> a' = Some r) \<Longrightarrow>
   (\<not> c \<Longrightarrow> b = Some r \<Longrightarrow> b' = Some r) \<Longrightarrow> (if c then a' else b') = Some r"
  by (simp split: if_splits)

lemma func_loop_mono:
  "le_eq eq eq' \<Longrightarrow> func_loop eq ft fv tin vin i k sn = Some r \<Longrightarrow>
   func_loop eq' ft fv tin vin i k sn = Some r"
proof (induction k arbitrary: i sn)
  case 0
  then show ?case by simp
next
  case (Suc k)
  from Suc.prems(2) show ?case
    unfolding func_loop.simps
    by (elim lift_mono and_then_mono) (auto intro: le_eqD [OF Suc.prems(1)] Suc.IH [OF Suc.prems(1)])
qed

lemma mhdr_loop_mono:
  "le_eq eq eq' \<Longrightarrow> mhdr_loop eq s tb tms vb vms sn = Some r \<Longrightarrow>
   mhdr_loop eq' s tb tms vb vms sn = Some r"
proof (induction tms arbitrary: tb vb vms sn)
  case Nil
  then show ?case by simp
next
  case (Cons tm tms)
  show ?case
  proof (cases vms)
    case Nil
    with Cons.prems show ?thesis by simp
  next
    case (Cons vm vms')
    from Cons.prems(2) show ?thesis
      unfolding Cons mhdr_loop.simps
      by (elim lift_mono and_then_mono if_mono)
        (auto intro: le_eqD [OF Cons.prems(1)] Cons.IH [OF Cons.prems(1)])
  qed
qed

lemma fields_loop_mono:
  "le_eq eq eq' \<Longrightarrow> fields_loop eq s tfs vfs sn = Some r \<Longrightarrow>
   fields_loop eq' s tfs vfs sn = Some r"
proof (induction tfs arbitrary: vfs sn)
  case Nil
  then show ?case by simp
next
  case (Cons tf tfs)
  show ?case
  proof (cases vfs)
    case Nil
    with Cons.prems show ?thesis by simp
  next
    case (Cons vf vfs')
    from Cons.prems(2) show ?thesis
      unfolding Cons fields_loop.simps
      by (elim lift_mono and_then_mono if_mono)
        (auto intro: le_eqD [OF Cons.prems(1)] Cons.IH [OF Cons.prems(1)])
  qed
qed

lemma switch_mono:
  assumes "le_eq eq eq'" and "typesEqual_switch eq s k dt dv sn = Some r"
  shows "typesEqual_switch eq' s k dt dv sn = Some r"
  using assms(2) unfolding typesEqual_switch_def
  by (elim if_mono)
     (auto split: trailer.splits if_splits
           elim!: lift_mono and_then_mono if_mono
           intro: le_eqD [OF assms(1)] func_loop_mono [OF assms(1)]
             mhdr_loop_mono [OF assms(1)] fields_loop_mono [OF assms(1)])

lemma body_mono:
  assumes "le_eq eq eq'"
  shows "le_eq (typesEqual_body eq s) (typesEqual_body eq' s)"
  unfolding le_eq_def
proof (intro allI impI)
  fix t v sn r
  assume "typesEqual_body eq s t v sn = Some r"
  then show "typesEqual_body eq' s t v sn = Some r"
    unfolding typesEqual_body_def Let_def
    by (elim if_mono lift_mono) (auto intro: switch_mono [OF assms])
qed

lemma typesEqual_Suc_mono: "le_eq (typesEqual n s) (typesEqual (Suc n) s)"
proof (induction n)
  case 0
  show ?case by (simp add: le_eq_def)
next
  case (Suc n)
  have "typesEqual (Suc m) s = typesEqual_body (typesEqual m s) s" for m
    by (intro ext) simp
  with body_mono [OF Suc] show ?case by simp
qed

lemma typesEqual_fuel_mono:
  "typesEqual n s t v sn = Some r \<Longrightarrow> typesEqual (n + m) s t v sn = Some r"
proof (induction m)
  case 0
  then show ?case by simp
next
  case (Suc m)
  then have "typesEqual (n + m) s t v sn = Some r" by simp
  with typesEqual_Suc_mono [of "n + m" s] have "typesEqual (Suc (n + m)) s t v sn = Some r"
    by (rule le_eqD)
  then show ?case by simp
qed


text \<open>
  Claim C2. For every state and every pair of descriptor addresses, \<^verbatim>\<open>typesEqual\<close> with
  the empty memo returns (a boolean or an abort): from some depth on, every bound on the
  depth of the recursion gives the same result. This covers every type graph, cyclic or
  not. The two self-referential structs of the example, each with a pointer field to
  itself, are reported equal.
\<close>

theorem typesEqual_terminates:
  "(\<exists>n r. \<forall>m. typesEqual (n + m) s t v {} = Some r) \<and>
   typesEqual 3 ex_cyclic 0x3000 0x1000 {} =
     Some (Inr (True, {(0x3040, 0x1040), (0x3000, 0x1000)}))"
proof
  have "ok {} (typesEqual (Suc (card (UNIV :: (addr \<times> addr) set))) s t v {})"
    using typesEqual_good by (rule good_call) simp
  then obtain r where "typesEqual (Suc (card (UNIV :: (addr \<times> addr) set))) s t v {} = Some r"
    using ok_Some by blast
  then have "\<forall>m. typesEqual (Suc (card (UNIV :: (addr \<times> addr) set)) + m) s t v {} = Some r"
    by (intro allI typesEqual_fuel_mono)
  then show "\<exists>n r. \<forall>m. typesEqual (n + m) s t v {} = Some r"
    by blast
next
  show "typesEqual 3 ex_cyclic 0x3000 0x1000 {} =
     Some (Inr (True, {(0x3040, 0x1040), (0x3000, 0x1000)}))"
    by (rule ex_cyclic_struct)
qed

section \<open>Module deduplication: canonical descriptors\<close>

text \<open>
  The pass changes nothing but the override maps, and \<^verbatim>\<open>typesEqual\<close> returns the first
  candidate of the bucket that compares equal.
\<close>

lemma with_typemaps_self: "with_typemaps s (map typemap (modules s)) = s"
proof -
  have "map (\<lambda>(m, tm). m\<lparr>typemap := tm\<rparr>) (zip ms (map typemap ms)) = ms" for ms :: "moduledata list"
    by (induction ms) auto
  then show ?thesis by (simp add: with_typemaps_def)
qed

lemma variant_refl: "variant s s"
  unfolding variant_def
  by (rule exI [of _ "map typemap (modules s)"]) (simp add: with_typemaps_self)

lemma variant_fields:
  assumes "variant s s1"
  shows "length (modules s1) = length (modules s)"
    and "descs s1 = descs s" and "mem s1 = mem s" and "reflectOffs_m s1 = reflectOffs_m s"
    and "k < length (modules s) \<Longrightarrow> types (modules s1 ! k) = types (modules s ! k)"
    and "k < length (modules s) \<Longrightarrow> etypes (modules s1 ! k) = etypes (modules s ! k)"
    and "k < length (modules s) \<Longrightarrow> typelinks (modules s1 ! k) = typelinks (modules s ! k)"
  using assms by (auto simp: variant_def with_typemaps_def)

lemma set_typemap_with_typemaps:
  assumes "length tms = length (modules s)" and "j < length (modules s)"
  shows "set_typemap (with_typemaps s tms) j tm = with_typemaps s (tms[j := Some tm])"
proof -
  let ?f = "\<lambda>(m, tm). m\<lparr>typemap := tm\<rparr>"
  have "(map ?f (zip (modules s) tms))[j := (map ?f (zip (modules s) tms) ! j)\<lparr>typemap := Some tm\<rparr>]
      = map ?f (zip (modules s) (tms[j := Some tm]))"
    using assms by (auto simp: list_eq_iff_nth_eq nth_list_update)
  then show ?thesis by (simp add: set_typemap_def with_typemaps_def)
qed

lemma variant_set_typemap:
  "variant s s1 \<Longrightarrow> j < length (modules s) \<Longrightarrow> variant s (set_typemap s1 j tm)"
  unfolding variant_def
  by (metis length_list_update set_typemap_with_typemaps)

lemma set_typemap_nth:
  "j < length (modules s1) \<Longrightarrow> typemap (modules (set_typemap s1 j tm) ! j) = Some tm"
  "k \<noteq> j \<Longrightarrow> modules (set_typemap s1 j tm) ! k = modules s1 ! k"
  "length (modules (set_typemap s1 j tm)) = length (modules s1)"
  "descs (set_typemap s1 j tm) = descs s1"
  by (simp_all add: set_typemap_def nth_list_update)

lemma find_candidate_unique:
  assumes "find_candidate n s1 t cands = Some (Inr r)"
    and "c \<in> set cands"
    and "reports_equal n s1 t c"
    and "\<forall>x \<in> set cands. x \<noteq> c \<longrightarrow> \<not> reports_equal n s1 t x"
  shows "r = c"
  using assms
proof (induction cands)
  case Nil
  then show ?case by simp
next
  case (Cons x cands)
  show ?case
  proof (cases "x = c")
    case True
    with Cons.prems(1,3) show ?thesis
      by (auto simp: reports_equal_def split: option.splits sum.splits)
  next
    case False
    with Cons.prems(4) have "\<not> reports_equal n s1 t x" by simp
    with Cons.prems(1) have "find_candidate n s1 t cands = Some (Inr r)"
      by (auto simp: reports_equal_def split: option.splits sum.splits if_splits)
    with Cons.IH Cons.prems False show ?thesis by auto
  qed
qed


lemma canonical_canon_md: "canonical s k lnk = canon_md (modules s ! k) lnk"
  by (simp add: canonical_def canon_md_def)

lemma collect_buckets:
  assumes "collect s1 prev lnks th = Inr th'"
  shows "set (th' h) = set (th h) \<union> {t. \<exists>x \<in> set lnks. t = canon_md prev x \<and> hash_at s1 t = Some h}"
    and "\<forall>x \<in> set lnks. descs s1 (canon_md prev x) \<noteq> None"
  using assms
proof (induction lnks arbitrary: th)
  case Nil
  { case 1 then show ?case by simp }
  { case 2 then show ?case by simp }
next
  case (Cons lnk lnks)
  let ?t = "canon_md prev lnk"
  { case 1
    from 1 obtain d where d: "descs s1 ?t = Some d"
      by (auto simp: canon_md_def load_type_def ebind_def Let_def split: option.splits)
    let ?h = "hash (typ' d)"
    have ht: "hash_at s1 ?t = Some ?h" using d by (simp add: hash_at_def)
    show ?case
    proof (cases "?t \<in> set (th ?h)")
      case True
      with 1 d have "collect s1 prev lnks th = Inr th'"
        by (simp add: canon_md_def load_type_def ebind_def Let_def)
      from Cons.IH(1) [OF this] True ht show ?thesis by auto
    next
      case False
      with 1 d have "collect s1 prev lnks (th (?h := th ?h @ [?t])) = Inr th'"
        by (simp add: canon_md_def load_type_def ebind_def Let_def)
      from Cons.IH(1) [OF this] ht show ?thesis by auto
    qed }
  { case 2
    from 2 obtain d where d: "descs s1 ?t = Some d"
      by (auto simp: canon_md_def load_type_def ebind_def Let_def split: option.splits)
    let ?h = "hash (typ' d)"
    from 2 d have "\<exists>th0. collect s1 prev lnks th0 = Inr th'"
      by (auto simp: canon_md_def load_type_def ebind_def Let_def split: if_splits)
    then obtain th0 where "collect s1 prev lnks th0 = Inr th'" ..
    from Cons.IH(2) [OF this] d show ?case by simp }
qed


lemma build_typemap_ConsE:
  assumes "build_typemap n s1 th j (lnk # lnks) = Some (Inr s2)"
  obtains d c tm where "descs s1 (types (modules s1 ! j) + scast lnk) = Some d"
    and "find_candidate n s1 (types (modules s1 ! j) + scast lnk) (th (hash (typ' d))) = Some (Inr c)"
    and "typemap (modules s1 ! j) = Some tm"
    and "build_typemap n (set_typemap s1 j (tm(lnk \<mapsto> c))) th j lnks = Some (Inr s2)"
  using assms
  by (auto simp: Let_def load_type_def split: option.splits sum.splits)

lemma build_typemap_frame:
  assumes "build_typemap n s1 th j lnks = Some (Inr s2)"
    and "variant s s1" and "j < length (modules s)"
  shows "variant s s2"
    and "\<forall>k. k \<noteq> j \<longrightarrow> modules s2 ! k = modules s1 ! k"
    and "\<forall>tm0. typemap (modules s1 ! j) = Some tm0 \<longrightarrow>
           (\<exists>tm. typemap (modules s2 ! j) = Some tm \<and> (\<forall>x. x \<notin> set lnks \<longrightarrow> tm x = tm0 x))"
  using assms
proof (induction lnks arbitrary: s1)
  case Nil
  { case 1 then show ?case by simp }
  { case 2 then show ?case by simp }
  { case 3 then show ?case by simp }
next
  case (Cons lnk lnks)
  { case 1
    from 1(1) obtain d c tm where
      step: "build_typemap n (set_typemap s1 j (tm(lnk \<mapsto> c))) th j lnks = Some (Inr s2)"
      by (rule build_typemap_ConsE)
    from 1(2,3) have "variant s (set_typemap s1 j (tm(lnk \<mapsto> c)))"
      by (rule variant_set_typemap)
    from Cons.IH(1) [OF step this 1(3)] show ?case . }
  { case 2
    from 2(1) obtain d c tm where
      step: "build_typemap n (set_typemap s1 j (tm(lnk \<mapsto> c))) th j lnks = Some (Inr s2)"
      by (rule build_typemap_ConsE)
    from 2(2,3) have "variant s (set_typemap s1 j (tm(lnk \<mapsto> c)))"
      by (rule variant_set_typemap)
    from Cons.IH(2) [OF step this 2(3)] show ?case
      by (simp add: set_typemap_nth) }
  { case 3
    from 3(1) obtain d c tm where
      tm: "typemap (modules s1 ! j) = Some tm" and
      step: "build_typemap n (set_typemap s1 j (tm(lnk \<mapsto> c))) th j lnks = Some (Inr s2)"
      by (rule build_typemap_ConsE)
    from 3(2,3) have v: "variant s (set_typemap s1 j (tm(lnk \<mapsto> c)))"
      by (rule variant_set_typemap)
    from 3(2,3) have "j < length (modules s1)" by (simp add: variant_fields)
    then have "typemap (modules (set_typemap s1 j (tm(lnk \<mapsto> c))) ! j) = Some (tm(lnk \<mapsto> c))"
      by (rule set_typemap_nth)
    with Cons.IH(3) [OF step v 3(3)] obtain tm' where
      "typemap (modules s2 ! j) = Some tm'" "\<forall>x. x \<notin> set lnks \<longrightarrow> tm' x = (tm(lnk \<mapsto> c)) x"
      by blast
    with tm show ?case by auto }
qed

lemma build_typemap_key:
  assumes "build_typemap n s1 th j lnks = Some (Inr s2)"
    and "variant s s1" and "j < length (modules s)"
    and "b \<in> set lnks"
    and "\<forall>hB. hash_at s (types (modules s ! j) + scast b) = Some hB \<longrightarrow>
           c \<in> set (th hB) \<and>
           (\<forall>x \<in> set (th hB). x \<noteq> c \<longrightarrow>
              (\<forall>s''. variant s s'' \<longrightarrow> \<not> reports_equal n s'' (types (modules s ! j) + scast b) x))"
    and "\<forall>s''. variant s s'' \<longrightarrow> reports_equal n s'' (types (modules s ! j) + scast b) c"
  shows "\<exists>tm. typemap (modules s2 ! j) = Some tm \<and> tm b = Some c"
  using assms(1,2,4)
proof (induction lnks arbitrary: s1)
  case Nil
  then show ?case by simp
next
  case (Cons lnk lnks)
  let ?B = "types (modules s ! j) + scast b"
  from Cons.prems(1) obtain d c' tm where
    d: "descs s1 (types (modules s1 ! j) + scast lnk) = Some d" and
    fc: "find_candidate n s1 (types (modules s1 ! j) + scast lnk) (th (hash (typ' d))) = Some (Inr c')" and
    tm: "typemap (modules s1 ! j) = Some tm" and
    step: "build_typemap n (set_typemap s1 j (tm(lnk \<mapsto> c'))) th j lnks = Some (Inr s2)"
    by (rule build_typemap_ConsE)
  from Cons.prems(2) assms(3) have v: "variant s (set_typemap s1 j (tm(lnk \<mapsto> c')))"
    by (rule variant_set_typemap)
  show ?case
  proof (cases "b \<in> set lnks")
    case True
    from Cons.IH [OF step v True] show ?thesis .
  next
    case False
    with Cons.prems(3) have b: "lnk = b" by simp
    from Cons.prems(2) assms(3) have tB: "types (modules s1 ! j) + scast lnk = ?B"
      by (simp add: variant_fields b)
    from d tB Cons.prems(2) have "descs s ?B = Some d" by (simp add: variant_fields)
    then have h: "hash_at s ?B = Some (hash (typ' d))" by (simp add: hash_at_def)
    from fc have fc': "find_candidate n s1 ?B (th (hash (typ' d))) = Some (Inr c')"
      by (simp only: tB)
    from assms(5) h have mem: "c \<in> set (th (hash (typ' d)))"
      and others: "\<forall>x \<in> set (th (hash (typ' d))). x \<noteq> c \<longrightarrow>
              (\<forall>s''. variant s s'' \<longrightarrow> \<not> reports_equal n s'' ?B x)"
      by blast+
    have "c' = c"
      using fc' mem
    proof (rule find_candidate_unique)
      show "reports_equal n s1 ?B c" using assms(6) Cons.prems(2) by blast
      show "\<forall>x\<in>set (th (hash (typ' d))). x \<noteq> c \<longrightarrow> \<not> reports_equal n s1 ?B x"
        using others Cons.prems(2) by blast
    qed
    from Cons.prems(2) assms(3) have "j < length (modules s1)" by (simp add: variant_fields)
    then have "typemap (modules (set_typemap s1 j (tm(lnk \<mapsto> c'))) ! j) = Some (tm(lnk \<mapsto> c'))"
      by (rule set_typemap_nth)
    with build_typemap_frame(3) [OF step v assms(3)] obtain tm' where
      "typemap (modules s2 ! j) = Some tm'" "\<forall>x. x \<notin> set lnks \<longrightarrow> tm' x = (tm(lnk \<mapsto> c')) x"
      by blast
    with False b \<open>c' = c\<close> show ?thesis by auto
  qed
qed

lemma modloop_ConsE:
  assumes "modloop n s1 th (j # js) = Some (Inr (s2, th2))"
  obtains th' s1' where
    "collect s1 (modules s1 ! (j - 1)) (typelinks (modules s1 ! (j - 1))) th = Inr th'"
    and "modloop n s1' th' js = Some (Inr (s2, th2))"
    and "typemap (modules s1 ! j) \<noteq> None \<and> s1' = s1 \<or>
         typemap (modules s1 ! j) = None \<and>
         build_typemap n (set_typemap s1 j Map.empty) th' j (typelinks (modules s1 ! j)) =
           Some (Inr s1')"
  using assms
  by (auto simp: Let_def split: option.splits sum.splits)

lemma modloop_step_frame:
  assumes "typemap (modules s1 ! j) \<noteq> None \<and> s1' = s1 \<or>
         typemap (modules s1 ! j) = None \<and>
         build_typemap n (set_typemap s1 j Map.empty) th' j lnks = Some (Inr s1')"
    and "variant s s1" and "j < length (modules s)"
  shows "variant s s1'" and "\<forall>k. k \<noteq> j \<longrightarrow> modules s1' ! k = modules s1 ! k"
proof -
  from assms(2,3) have v: "variant s (set_typemap s1 j Map.empty)"
    by (rule variant_set_typemap)
  from assms(1) show "variant s s1'"
    using build_typemap_frame(1) [OF _ v assms(3)] assms(2) by blast
  from assms(1) show "\<forall>k. k \<noteq> j \<longrightarrow> modules s1' ! k = modules s1 ! k"
    using build_typemap_frame(2) [OF _ v assms(3)] by (auto simp: set_typemap_nth)
qed

lemma modloop_frame:
  assumes "modloop n s1 th js = Some (Inr (s2, th2))"
    and "variant s s1" and "\<forall>j \<in> set js. j < length (modules s)"
  shows "variant s s2" and "\<forall>k. k \<notin> set js \<longrightarrow> modules s2 ! k = modules s1 ! k"
  using assms
proof (induction js arbitrary: s1 th)
  case Nil
  { case 1 then show ?case by simp }
  { case 2 then show ?case by simp }
next
  case (Cons j js)
  { case 1
    from 1(1) obtain th' s1' where
      rest: "modloop n s1' th' js = Some (Inr (s2, th2))" and
      step: "typemap (modules s1 ! j) \<noteq> None \<and> s1' = s1 \<or>
         typemap (modules s1 ! j) = None \<and>
         build_typemap n (set_typemap s1 j Map.empty) th' j (typelinks (modules s1 ! j)) =
           Some (Inr s1')"
      by (rule modloop_ConsE)
    from 1(3) have j: "j < length (modules s)" by simp
    from modloop_step_frame(1) [OF step 1(2) j] have "variant s s1'" .
    from Cons.IH(1) [OF rest this] 1(3) show ?case by simp }
  { case 2
    from 2(1) obtain th' s1' where
      rest: "modloop n s1' th' js = Some (Inr (s2, th2))" and
      step: "typemap (modules s1 ! j) \<noteq> None \<and> s1' = s1 \<or>
         typemap (modules s1 ! j) = None \<and>
         build_typemap n (set_typemap s1 j Map.empty) th' j (typelinks (modules s1 ! j)) =
           Some (Inr s1')"
      by (rule modloop_ConsE)
    from 2(3) have j: "j < length (modules s)" by simp
    note f = modloop_step_frame [OF step 2(2) j]
    from Cons.IH(2) [OF rest f(1)] 2(3) f(2) show ?case by auto }
qed

lemma modloop_append:
  "modloop n s1 th (js1 @ js2) =
     (case modloop n s1 th js1 of
        None \<Rightarrow> None
      | Some (Inl e) \<Rightarrow> Some (Inl e)
      | Some (Inr (s2, th2)) \<Rightarrow> modloop n s2 th2 js2)"
  by (induction js1 arbitrary: s1 th) (auto simp: Let_def split: option.splits sum.splits)

lemma modloop_appendE:
  assumes "modloop n s1 th (js1 @ js2) = Some (Inr (s3, th3))"
  obtains s2 th2 where "modloop n s1 th js1 = Some (Inr (s2, th2))"
    and "modloop n s2 th2 js2 = Some (Inr (s3, th3))"
  using assms unfolding modloop_append
  by (auto split: option.splits sum.splits)

lemma canonical_cong:
  "modules s2 ! k = modules s1 ! k \<Longrightarrow> canonical s2 k x = canonical s1 k x"
  by (simp add: canonical_canon_md)

lemma hash_at_variant: "variant s s1 \<Longrightarrow> hash_at s1 t = hash_at s t"
  by (simp add: hash_at_def variant_fields)

lemma collected_step:
  assumes "collected s s1 j th" and "variant s s1" and "j < length (modules s)"
    and "collect s1 (modules s1 ! j) (typelinks (modules s1 ! j)) th = Inr th'"
  shows "collected s s1 (Suc j) th'"
proof -
  note cb = collect_buckets [OF assms(4)]
  have tl: "typelinks (modules s1 ! j) = typelinks (modules s ! j)"
    using assms(2,3) by (simp add: variant_fields)
  have lt: "k < Suc j \<longleftrightarrow> k < j \<or> k = j" for k by auto
  show ?thesis
    unfolding collected_def
  proof (intro conjI allI)
    fix h
    show "set (th' h) = {t. \<exists>k x. k < Suc j \<and> x \<in> set (typelinks (modules s ! k)) \<and>
                              t = canonical s1 k x \<and> hash_at s t = Some h}"
      unfolding cb(1) [of h] lt
      using assms(1) hash_at_variant [OF assms(2)]
      by (auto simp: collected_def tl canonical_canon_md)
  next
    fix k x
    show "k < Suc j \<and> x \<in> set (typelinks (modules s ! k)) \<longrightarrow> descs s (canonical s1 k x) \<noteq> None"
      unfolding lt
      using assms(1) cb(2) variant_fields(2) [OF assms(2)]
      by (auto simp: collected_def tl canonical_canon_md)
  qed
qed

lemma collected_cong:
  assumes "collected s s1 j th" and "\<forall>k. k < j \<longrightarrow> modules s2 ! k = modules s1 ! k"
  shows "collected s s2 j th"
proof -
  have eq: "canonical s2 k x = canonical s1 k x" if "k < j" for k x
    using assms(2) that by (intro canonical_cong) simp
  have a: "{t. \<exists>k x. k < j \<and> x \<in> set (typelinks (modules s ! k)) \<and>
                              t = canonical s2 k x \<and> hash_at s t = Some h} =
        {t. \<exists>k x. k < j \<and> x \<in> set (typelinks (modules s ! k)) \<and>
                              t = canonical s1 k x \<and> hash_at s t = Some h}" for h
    by (simp add: eq cong: conj_cong)
  have b: "(k < j \<and> x \<in> set (typelinks (modules s ! k)) \<longrightarrow> descs s (canonical s2 k x) \<noteq> None) =
     (k < j \<and> x \<in> set (typelinks (modules s ! k)) \<longrightarrow> descs s (canonical s1 k x) \<noteq> None)" for k x
    using eq by auto
  from assms(1) show ?thesis
    unfolding collected_def a b .
qed


lemma modloop_collected:
  assumes "modloop n s (\<lambda>h. []) [1..<j] = Some (Inr (s2, th2))" and "j \<le> length (modules s)"
  shows "collected s s2 (j - 1) th2 \<and> variant s s2"
  using assms
proof (induction j arbitrary: s2 th2)
  case 0
  then have e: "s2 = s" "th2 = (\<lambda>h. [])" by simp_all
  have "collected s s (0 - 1) (\<lambda>h. []) \<and> variant s s"
    by (simp add: collected_def variant_refl)
  then show ?case unfolding e .
next
  case (Suc j)
  show ?case
  proof (cases "j = 0")
    case True
    with Suc.prems have e: "s2 = s" "th2 = (\<lambda>h. [])" by simp_all
    have "collected s s (Suc 0 - 1) (\<lambda>h. []) \<and> variant s s"
      by (simp add: collected_def variant_refl)
    then show ?thesis unfolding e True .
  next
    case False
    then have "[1..<Suc j] = [1..<j] @ [j]" by simp
    with Suc.prems(1) obtain s1 th1 where
      pre: "modloop n s (\<lambda>h. []) [1..<j] = Some (Inr (s1, th1))" and
      last: "modloop n s1 th1 [j] = Some (Inr (s2, th2))"
      by (metis modloop_appendE)
    from Suc.IH [OF pre] Suc.prems(2) have c1: "collected s s1 (j - 1) th1" and v1: "variant s s1"
      by simp_all
    from Suc.prems(2) have jL: "j < length (modules s)" by simp
    from last obtain th' s1' where
      col: "collect s1 (modules s1 ! (j - 1)) (typelinks (modules s1 ! (j - 1))) th1 = Inr th'" and
      rest: "modloop n s1' th' [] = Some (Inr (s2, th2))" and
      step: "typemap (modules s1 ! j) \<noteq> None \<and> s1' = s1 \<or>
         typemap (modules s1 ! j) = None \<and>
         build_typemap n (set_typemap s1 j Map.empty) th' j (typelinks (modules s1 ! j)) =
           Some (Inr s1')"
      by (rule modloop_ConsE)
    from rest have eq: "s2 = s1'" "th2 = th'" by simp_all
    note f = modloop_step_frame [OF step v1 jL]
    from jL have "j - 1 < length (modules s)" by simp
    from collected_step [OF c1 v1 this col] False have cj: "collected s s1 j th'" by simp
    have fr: "\<forall>k. k < j \<longrightarrow> modules s1' ! k = modules s1 ! k"
    proof (intro allI impI)
      fix k assume "k < j"
      then have "k \<noteq> j" by simp
      with f(2) show "modules s1' ! k = modules s1 ! k" by blast
    qed
    from cj fr have "collected s s1' j th'" by (rule collected_cong)
    with f(1) eq show ?thesis by simp
  qed
qed

lemma find_module_nth:
  "k < length ms \<Longrightarrow> types (ms ! k) \<le> p \<Longrightarrow> p < etypes (ms ! k) \<Longrightarrow>
   \<forall>k' < k. \<not> (types (ms ! k') \<le> p \<and> p < etypes (ms ! k')) \<Longrightarrow>
   find_module ms p = Some (ms ! k)"
proof (induction ms arbitrary: k)
  case Nil
  then show ?case by simp
next
  case (Cons m ms)
  show ?case
  proof (cases k)
    case 0
    with Cons.prems show ?thesis by simp
  next
    case (Suc k')
    with Cons.prems(4) have "\<not> (types m \<le> p \<and> p < etypes m)" by auto
    moreover from Cons.prems Suc have "find_module ms p = Some (ms ! k')"
      by (intro Cons.IH) auto
    ultimately show ?thesis using Suc by auto
  qed
qed

lemma owns_find_module:
  assumes "owns s k p" and "variant s s1"
  shows "find_module (modules s1) p = Some (modules s1 ! k)"
proof -
  from assms(1) have k: "k < length (modules s)" by (simp add: owns_def)
  show ?thesis
  proof (rule find_module_nth)
    show "k < length (modules s1)" using k assms(2) by (simp add: variant_fields)
    show "types (modules s1 ! k) \<le> p" "p < etypes (modules s1 ! k)"
      using assms k by (simp_all add: variant_fields owns_def)
    show "\<forall>k'<k. \<not> (types (modules s1 ! k') \<le> p \<and> p < etypes (modules s1 ! k'))"
      using assms k by (auto simp: variant_fields owns_def)
  qed
qed

lemma variant_iff:
  "variant s s'' \<longleftrightarrow> (\<exists>tms. length tms = length (modules s) \<and> s'' = with_typemaps s tms)"
  by (simp add: variant_def)

lemma length2E:
  assumes "length xs = Suc (Suc 0)"
  obtains x y where "xs = [x, y]"
  using assms by (cases xs; cases "tl xs") auto

text \<open>
  Claim C1, amended. Let the pass run to its end over a registry with modules \<open>i < j\<close>,
  where module \<open>j\<close> had no override map, and let \<open>a\<close> and \<open>b\<close> be non-zero typelink
  offsets of the two modules, \<open>b\<close> that of the descriptor \<open>B\<close>. If after the pass
  \<^verbatim>\<open>resolveTypeOff\<close> returns the address \<open>c\<close> for \<open>a\<close> (from a context address of module
  \<open>i\<close>), the descriptor at \<open>c\<close> carries the stored hash of \<open>B\<close>, \<^verbatim>\<open>typesEqual\<close> reports \<open>B\<close>
  equal to it whatever override maps are installed, and reports \<open>B\<close> equal to no other
  canonical descriptor of a typelink of a module before \<open>j\<close>, then \<^verbatim>\<open>resolveTypeOff\<close>
  returns the same address \<open>c\<close> for \<open>b\<close> (from a context address of module \<open>j\<close>). The
  nil address holds no descriptor.
\<close>

theorem typelinksinit_canonical:
  assumes run: "typelinksinit n s = Some (Inr s')"
    and ij: "i < j" and jL: "j < length (modules s)"
    and fresh: "typemap (modules s ! j) = None"
    and la: "a \<in> set (typelinks (modules s ! i))"
    and lb: "b \<in> set (typelinks (modules s ! j))"
    and nz: "a \<noteq> 0" "b \<noteq> 0"
    and nil: "descs s 0 = None"
    and ownA: "owns s i ctxA" and ownB: "owns s j ctxB"
    and resA: "resolveTypeOff s' ctxA a = Inr c"
    and hash: "hash_at s c = hash_at s (types (modules s ! j) + scast b)"
    and eq: "\<forall>tms. length tms = length (modules s) \<longrightarrow>
               reports_equal n (with_typemaps s tms) (types (modules s ! j) + scast b) c"
    and uniq: "\<forall>k < j. \<forall>x \<in> set (typelinks (modules s ! k)). \<forall>tms.
                 canonical s' k x \<noteq> c \<and> length tms = length (modules s) \<longrightarrow>
                 \<not> reports_equal n (with_typemaps s tms) (types (modules s ! j) + scast b)
                     (canonical s' k x)"
  shows "resolveTypeOff s' ctxB b = Inr c"
proof -
  let ?L = "length (modules s)"
  let ?B = "types (modules s ! j) + scast b"
  from ij jL have L: "\<not> ?L \<le> 1" and j1: "1 \<le> j" by simp_all
  from run L obtain thF where
    all: "modloop n s (\<lambda>h. []) [1..<?L] = Some (Inr (s', thF))"
    by (auto simp: typelinksinit_def split: option.splits sum.splits)
  have "[1..<?L] = [1..<j] @ [j..<?L]"
    using upt_add_eq_append [of 1 j "?L - j"] j1 jL by simp
  also have "[j..<?L] = j # [Suc j..<?L]"
    using jL by (simp add: upt_conv_Cons)
  finally have "[1..<?L] = [1..<j] @ j # [Suc j..<?L]" .
  with all obtain s1 th1 where
    pre: "modloop n s (\<lambda>h. []) [1..<j] = Some (Inr (s1, th1))" and
    post: "modloop n s1 th1 (j # [Suc j..<?L]) = Some (Inr (s', thF))"
    by (metis modloop_appendE)
  from modloop_collected [OF pre] jL have c1: "collected s s1 (j - 1) th1" and v1: "variant s s1"
    by simp_all
  have s1j: "modules s1 ! j = modules s ! j"
    using modloop_frame(2) [OF pre variant_refl] jL by simp
  from post obtain th' s2 where
    col: "collect s1 (modules s1 ! (j - 1)) (typelinks (modules s1 ! (j - 1))) th1 = Inr th'" and
    rest: "modloop n s2 th' [Suc j..<?L] = Some (Inr (s', thF))" and
    step: "typemap (modules s1 ! j) \<noteq> None \<and> s2 = s1 \<or>
         typemap (modules s1 ! j) = None \<and>
         build_typemap n (set_typemap s1 j Map.empty) th' j (typelinks (modules s1 ! j)) =
           Some (Inr s2)"
    by (rule modloop_ConsE)
  from step fresh s1j have
    build: "build_typemap n (set_typemap s1 j Map.empty) th' j (typelinks (modules s ! j)) = Some (Inr s2)"
    by simp
  from v1 jL have v0: "variant s (set_typemap s1 j Map.empty)"
    by (rule variant_set_typemap)
  note f2 = modloop_step_frame [OF step v1 jL]
  have f3: "\<forall>k. k \<notin> set [Suc j..<?L] \<longrightarrow> modules s' ! k = modules s2 ! k"
    using modloop_frame(2) [OF rest f2(1)] by simp
  have vF: "variant s s'"
    using modloop_frame(1) [OF rest f2(1)] by simp
  have below: "modules s' ! k = modules s1 ! k" if "k < j" for k
  proof -
    from that have "k \<notin> set [Suc j..<?L]" "k \<noteq> j" by simp_all
    with f3 f2(2) show ?thesis by metis
  qed
  have sj: "modules s' ! j = modules s2 ! j"
    using f3 by simp
  from j1 jL have "j - 1 < ?L" by simp
  from collected_step [OF c1 v1 this col] j1 have cj: "collected s s1 j th'" by simp
  have fr: "\<forall>k. k < j \<longrightarrow> modules s' ! k = modules s1 ! k"
    using below by blast
  from cj fr have cF: "collected s s' j th'"
    by (rule collected_cong)
  text \<open>The address that the offset of A resolves to is the canonical descriptor of its typelink.\<close>
  from ownA vF have fA: "find_module (modules s') ctxA = Some (modules s' ! i)"
    by (rule owns_find_module)
  from cF ij la have loadedA: "descs s (canonical s' i a) \<noteq> None"
    by (simp add: collected_def)
  with nil have can0: "canonical s' i a \<noteq> 0" by auto
  have cA: "c = canonical s' i a"
  proof (cases "typemap (modules s' ! i)")
    case None
    with resA fA nz(1) show ?thesis
      by (simp add: resolveTypeOff_def canonical_def Let_def split: if_splits)
  next
    case (Some tm)
    with can0 have "map_ptr tm a \<noteq> 0" by (simp add: canonical_def)
    with resA fA nz(1) Some show ?thesis
      by (simp add: resolveTypeOff_def canonical_def)
  qed
  from can0 have c0: "c \<noteq> 0" by (simp only: cA) simp
  text \<open>The bucket of B holds c and no other descriptor that compares equal.\<close>
  have bucket: "\<forall>hB. hash_at s ?B = Some hB \<longrightarrow>
           c \<in> set (th' hB) \<and>
           (\<forall>x \<in> set (th' hB). x \<noteq> c \<longrightarrow>
              (\<forall>s''. variant s s'' \<longrightarrow> \<not> reports_equal n s'' ?B x))"
  proof (intro allI impI conjI ballI)
    fix hB assume h: "hash_at s ?B = Some hB"
    with hash have "hash_at s c = Some hB" by simp
    with cF ij la cA show "c \<in> set (th' hB)"
      unfolding collected_def by blast
  next
    fix hB x s''
    assume "x \<in> set (th' hB)" and xc: "x \<noteq> c" and v: "variant s s''"
    with cF obtain k y where k: "k < j" "y \<in> set (typelinks (modules s ! k))" "x = canonical s' k y"
      unfolding collected_def by blast
    from v obtain tms where "length tms = ?L" "s'' = with_typemaps s tms"
      unfolding variant_def by blast
    with uniq k xc show "\<not> reports_equal n s'' ?B x" by blast
  qed
  have equal: "\<forall>s''. variant s s'' \<longrightarrow> reports_equal n s'' ?B c"
    using eq unfolding variant_def by blast
  from build_typemap_key [OF build v0 jL lb bucket equal] obtain tm where
    "typemap (modules s2 ! j) = Some tm" "tm b = Some c"
    by blast
  with sj have tmF: "typemap (modules s' ! j) = Some tm" "map_ptr tm b = c"
    by (simp_all add: map_ptr_def)
  from ownB vF have "find_module (modules s') ctxB = Some (modules s' ! j)"
    by (rule owns_find_module)
  with tmF nz(2) c0 show ?thesis
    by (simp add: resolveTypeOff_def)
qed

text \<open>
  The two copies of \<open>*pkg.S\<close> with equal hashes: after the pass both offsets resolve to
  the descriptor of the first module. The slice descriptor of the first module is a
  candidate of the same hash that does not compare equal.
\<close>

theorem typelinksinit_canonical_witness:
  "typelinksinit 3 (ex_pair 7 None None) = Some (Inr (ex_pair 7 None (Some [0x40 \<mapsto> 0x1040]))) \<and>
   resolveTypeOff (ex_pair 7 None (Some [0x40 \<mapsto> 0x1040])) 0x1000 0x40 = Inr 0x1040 \<and>
   resolveTypeOff (ex_pair 7 None (Some [0x40 \<mapsto> 0x1040])) 0x3000 0x40 = Inr 0x1040"
proof -
  let ?s = "ex_pair 7 None None"
  let ?s' = "ex_pair 7 None (Some [0x40 \<mapsto> 0x1040])"
  have len: "length (modules ?s) = Suc (Suc 0)" by (simp add: ex_pair_fields)
  have B: "types (modules ?s ! Suc 0) + scast (0x40 :: 32 word) = 0x3040"
    by (simp add: ex_pair_fields)
  have run: "typelinksinit 3 ?s = Some (Inr ?s')" by (rule ex_pair_typelinksinit_same)
  have ij: "0 < Suc 0" by simp
  have jL: "Suc 0 < length (modules ?s)" by (simp add: len)
  have fresh: "typemap (modules ?s ! Suc 0) = None" by (rule ex_pair_fresh)
  have la: "0x40 \<in> set (typelinks (modules ?s ! 0))" by (simp add: ex_pair_fields ex_module_def)
  have lb: "0x40 \<in> set (typelinks (modules ?s ! Suc 0))" by (simp add: ex_pair_links)
  have nz: "(0x40 :: 32 word) \<noteq> 0" by simp
  have nil: "descs ?s 0 = None" by (simp add: ex_pair_fields ex_pair_descs_def)
  have ownA: "owns ?s 0 0x1000" by (simp add: owns_def ex_pair_fields ex_module_def)
  have ownB: "owns ?s (Suc 0) 0x3000" by (simp add: owns_def ex_pair_fields ex_module_def)
  have resA: "resolveTypeOff ?s' 0x1000 0x40 = Inr 0x1040"
    by (simp add: resolveTypeOff_def ex_pair_fields ex_module_def)
  have hash: "hash_at ?s 0x1040 = hash_at ?s (types (modules ?s ! Suc 0) + scast (0x40 :: 32 word))"
    unfolding B by (simp add: hash_at_def ex_pair_fields ex_pair_descs_def ex_hdr_def)
  have eq: "\<forall>tms. length tms = length (modules ?s) \<longrightarrow>
      reports_equal 3 (with_typemaps ?s tms) (types (modules ?s ! Suc 0) + scast (0x40 :: 32 word)) 0x1040"
    unfolding B len
  proof (intro allI impI)
    fix tms :: "(typeOff \<rightharpoonup> addr) option list"
    assume "length tms = Suc (Suc 0)"
    then obtain x y where "tms = [x, y]" by (rule length2E)
    then show "reports_equal 3 (with_typemaps ?s tms) 0x3040 0x1040"
      by (simp add: ex_pair_with_typemaps ex_pair_reports_equal)
  qed
  have can: "canonical ?s' 0 0x40 = 0x1040" "canonical ?s' 0 0x80 = 0x1080"
    by (simp_all add: canonical_def ex_pair_fields ex_module_def)
  have other: "\<not> reports_equal 3 (with_typemaps ?s tms) 0x3040 0x1080"
    if "length tms = Suc (Suc 0)" for tms
  proof -
    from that obtain x y where "tms = [x, y]" by (rule length2E)
    then show ?thesis by (simp add: ex_pair_with_typemaps ex_pair_reports_unequal)
  qed
  have uniq: "\<forall>k < Suc 0. \<forall>x \<in> set (typelinks (modules ?s ! k)). \<forall>tms.
      canonical ?s' k x \<noteq> 0x1040 \<and> length tms = length (modules ?s) \<longrightarrow>
      \<not> reports_equal 3 (with_typemaps ?s tms)
          (types (modules ?s ! Suc 0) + scast (0x40 :: 32 word)) (canonical ?s' k x)"
    unfolding B len using can other by (simp add: ex_pair_fields)
  from typelinksinit_canonical [OF run ij jL fresh la lb nz nz nil ownA ownB resA hash eq uniq]
  have "resolveTypeOff ?s' 0x3000 0x40 = Inr 0x1040" .
  with run resA show ?thesis by simp
qed

text \<open>
  As stated the claim fails: the candidates of a descriptor are those of its stored hash
  only. With the hash 8 stored in the second module's copy of \<open>*pkg.S\<close> and 7 in the
  first module's, \<^verbatim>\<open>typesEqual\<close> reports the two equal, yet after the pass each module's
  offset resolves to its own descriptor.
\<close>

theorem typelinksinit_hash_mismatch:
  "typelinksinit 3 (ex_pair 8 None None) = Some (Inr (ex_pair 8 None (Some [0x40 \<mapsto> 0x3040]))) \<and>
   reports_equal 3 (ex_pair 8 None (Some [0x40 \<mapsto> 0x3040])) 0x3040 0x1040 \<and>
   resolveTypeOff (ex_pair 8 None (Some [0x40 \<mapsto> 0x3040])) 0x1000 0x40 = Inr 0x1040 \<and>
   resolveTypeOff (ex_pair 8 None (Some [0x40 \<mapsto> 0x3040])) 0x3000 0x40 = Inr 0x3040"
  by (simp add: ex_pair_typelinksinit_other ex_pair_reports_equal resolveTypeOff_def
      ex_pair_fields ex_module_def map_ptr_def)

end
